theory Spec2Isabelle
  imports Complex_Main
begin

section \<open>Sensor API server (app.js): data model\<close>

text \<open>
  JavaScript Numbers are modelled by mathematical numbers: the id counter by \<open>nat\<close>
  (exact for every Number below \<open>2 ^ 53\<close>), every other finite Number by a rational
  (each double is one), with the three non-finite Numbers as constructors of their own.
  The rounding of IEEE-754 arithmetic is outside the model.
\<close>

datatype jsnum = NaN | PosInfinity | NegInfinity | Finite rat

datatype jsval =
    Undefined
  | Null
  | Boolean bool
  | Number jsnum
  | String string
  | Array "jsval list"
  | Object "(string \<times> jsval) list"

datatype status = INITIALIZING | ACTIVE | FAILED | RESTARTING | TERMINATING

fun status_name :: "status \<Rightarrow> string" where
  "status_name INITIALIZING = ''INITIALIZING''"
| "status_name ACTIVE = ''ACTIVE''"
| "status_name FAILED = ''FAILED''"
| "status_name RESTARTING = ''RESTARTING''"
| "status_name TERMINATING = ''TERMINATING''"

definition ACTION_RESTART :: string where
  "ACTION_RESTART = ''restart''"

definition ACTION_TERMINATE :: string where
  "ACTION_TERMINATE = ''terminate''"

record sensor =
  sid :: nat
  frequency :: jsval
  status :: status
  measurement :: "rat option"

record options =
  unreliable :: bool
  failSensors :: bool

definition DELAY_REQ_MIN :: rat where "DELAY_REQ_MIN = 0"
definition DELAY_REQ_MAX :: rat where "DELAY_REQ_MAX = 1000"
definition DELAY_ACTION_MIN :: rat where "DELAY_ACTION_MIN = 2000"
definition DELAY_ACTION_MAX :: rat where "DELAY_ACTION_MAX = 5000"

definition ERROR_HANG_RATE :: "options \<Rightarrow> rat" where
  "ERROR_HANG_RATE opts = (if unreliable opts then 5 / 100 else 0)"

definition ERROR_502_RATE :: "options \<Rightarrow> rat" where
  "ERROR_502_RATE opts = (if unreliable opts then 5 / 100 else 0)"

definition ERROR_CLOSE_RATE :: "options \<Rightarrow> rat" where
  "ERROR_CLOSE_RATE opts = (if unreliable opts then 5 / 100 else 0)"

definition ERROR_TEXT_ERROR :: "options \<Rightarrow> rat" where
  "ERROR_TEXT_ERROR opts = (if unreliable opts then 5 / 100 else 0)"

definition FAILURE_RATE :: "options \<Rightarrow> rat" where
  "FAILURE_RATE opts = (if failSensors opts then 2 / 10 else 0)"

definition ERROR_TEXT_CONTENT :: string where
  "ERROR_TEXT_CONTENT = ''This site is inaccessible. Please try again.''"

text \<open>
  \<open>Math.random()\<close> is an input of the model: every function that calls it takes the
  value drawn, a rational in \<open>[0, 1)\<close>, as an argument. The three functions below compute
  exactly where the program rounds to the nearest double, so the statements about their
  values are bounds that rounding keeps: a request delay is below 1000, and an action
  delay is at most 5000, which the program's sum reaches for the largest draws.
\<close>

definition getRequestDelay :: "rat \<Rightarrow> rat" where
  "getRequestDelay u = DELAY_REQ_MIN + u * (DELAY_REQ_MAX - DELAY_REQ_MIN)"

definition getActionDelay :: "rat \<Rightarrow> rat" where
  "getActionDelay u = DELAY_ACTION_MIN + u * (DELAY_ACTION_MAX - DELAY_ACTION_MIN)"

definition getMeasurement :: "rat \<Rightarrow> rat" where
  "getMeasurement u = u * 100"

subsection \<open>The response object\<close>

text \<open>
  What a handler can send: \<open>res.json\<close> of an error object, of a sensor, of the id list
  or of \<open>{ok: true}\<close>, and \<open>res.send\<close> of a text. \<open>sent = None\<close> is a response on
  which neither was called: nothing has been written to the client.
\<close>

datatype payload =
    ErrorJson string
  | SensorJson sensor
  | IdsJson "nat list"
  | OkJson
  | Text string
  | SensorsText "sensor list"

record response =
  statusCode :: nat
  sent :: "payload option"
  destroyed :: bool

definition fresh_res :: response where
  "fresh_res = \<lparr>statusCode = 200, sent = None, destroyed = False\<rparr>"

definition res_status :: "nat \<Rightarrow> response \<Rightarrow> response" where
  "res_status code res = res\<lparr>statusCode := code\<rparr>"

definition res_json :: "payload \<Rightarrow> response \<Rightarrow> response" where
  "res_json p res = res\<lparr>sent := Some p\<rparr>"

definition res_send :: "payload \<Rightarrow> response \<Rightarrow> response" where
  "res_send p res = res\<lparr>sent := Some p\<rparr>"

definition connection_destroy :: "response \<Rightarrow> response" where
  "connection_destroy res = res\<lparr>destroyed := True\<rparr>"

subsection \<open>The fault-injection gate\<close>

text \<open>
  \<open>randomErrorsMiddleware(req, res, next)\<close>: the result is the response object as the
  middleware leaves it, and whether it called \<open>next\<close>.
\<close>

definition randomErrorsMiddleware :: "options \<Rightarrow> rat \<Rightarrow> response \<Rightarrow> response \<times> bool" where
  "randomErrorsMiddleware opts roll res =
     (let errorRoll = roll - ERROR_HANG_RATE opts in
      if errorRoll < 0 then (res, False)
      else let errorRoll = errorRoll - ERROR_502_RATE opts in
      if errorRoll < 0 then (res_status 502 res, False)
      else let errorRoll = errorRoll - ERROR_CLOSE_RATE opts in
      if errorRoll < 0 then (connection_destroy res, False)
      else let errorRoll = errorRoll - ERROR_TEXT_ERROR opts in
      if errorRoll < 0 then (res_send (Text ERROR_TEXT_CONTENT) (res_status 500 res), False)
      else (res, True))"

subsection \<open>Numbers and values of the request\<close>

definition Number_isNaN :: "jsval \<Rightarrow> bool" where
  "Number_isNaN v = (v = Number NaN)"

definition Number_isInteger :: "jsval \<Rightarrow> bool" where
  "Number_isInteger v =
     (case v of Number (Finite q) \<Rightarrow> of_int \<lfloor>q\<rfloor> = q | _ \<Rightarrow> False)"

text \<open>\<open>!n\<close> on a Number: true on zero and on \<open>NaN\<close>.\<close>

definition js_not :: "jsnum \<Rightarrow> bool" where
  "js_not n = (n = Finite 0 \<or> n = NaN)"

text \<open>\<open>a === b\<close> on Numbers: \<open>NaN\<close> equals nothing, itself included.\<close>

definition strict_eq :: "jsnum \<Rightarrow> jsnum \<Rightarrow> bool" where
  "strict_eq a b = (a \<noteq> NaN \<and> b \<noteq> NaN \<and> a = b)"

definition js_of_nat :: "nat \<Rightarrow> jsnum" where
  "js_of_nat n = Finite (of_nat n)"

text \<open>
  The request as the handlers read it: \<open>param_id\<close> is the value of
  \<open>Number(req.params.id)\<close>, \<open>param_action\<close> is \<open>req.params.action\<close>, and \<open>body\<close>
  holds the properties of the object \<open>req.body\<close> (a property that is not listed reads
  as \<open>undefined\<close>).
\<close>

record request =
  param_id :: jsnum
  param_action :: string
  body :: "(string \<times> jsval) list"

definition js_get :: "(string \<times> jsval) list \<Rightarrow> string \<Rightarrow> jsval" where
  "js_get obj k = (case map_of obj k of None \<Rightarrow> Undefined | Some v \<Rightarrow> v)"

subsection \<open>The registry, the sensor objects and the pending timers\<close>

text \<open>
  The array \<open>sensors\<close> holds references to sensor objects, and the callbacks handed to
  \<open>setTimeout\<close> close over such a reference: \<open>heap\<close> maps a reference to the object's
  fields, and \<open>nextRef\<close> is the next unused reference. A pending timer is the delay it
  was set with and its callback; there are two callbacks in the program,
  \<open>() => sensor.status = STATUS_ACTIVE\<close> (after a creation and after a restart) and
  \<open>() => sensors.splice(sensors.indexOf(sensor), 1)\<close>.
\<close>

type_synonym ref = nat

datatype callback = SetActive ref | Splice ref

record world =
  nextId :: nat
  sensors :: "ref list"
  heap :: "ref \<Rightarrow> sensor"
  nextRef :: ref
  timers :: "(rat \<times> callback) list"

definition blank :: sensor where
  "blank = \<lparr>sid = 0, frequency = Undefined, status = INITIALIZING, measurement = None\<rparr>"

definition init :: world where
  "init = \<lparr>nextId = 1, sensors = [], heap = (\<lambda>_. blank), nextRef = 0, timers = []\<rparr>"

fun indexOf :: "'a list \<Rightarrow> 'a \<Rightarrow> int" where
  "indexOf [] x = - 1"
| "indexOf (y # ys) x =
     (if y = x then 0 else (let i = indexOf ys x in if i < 0 then - 1 else i + 1))"

text \<open>
  \<open>xs.splice(start, deleteCount)\<close>, the array it leaves: a negative \<open>start\<close> counts
  from the end, and both arguments are clamped to the array.
\<close>

definition splice_js :: "'a list \<Rightarrow> int \<Rightarrow> nat \<Rightarrow> 'a list" where
  "splice_js xs start deleteCount =
     (let len = int (length xs);
          actualStart = nat (if start < 0 then max (len + start) 0 else min start len);
          actualDeleteCount = min deleteCount (length xs - actualStart)
      in take actualStart xs @ drop (actualStart + actualDeleteCount) xs)"

definition setTimeout :: "callback \<Rightarrow> rat \<Rightarrow> world \<Rightarrow> world" where
  "setTimeout cb delay w = w\<lparr>timers := timers w @ [(delay, cb)]\<rparr>"

definition actionAfterDelay :: "rat \<Rightarrow> callback \<Rightarrow> world \<Rightarrow> world" where
  "actionAfterDelay u cb w = setTimeout cb (getActionDelay u) w"

definition set_status :: "ref \<Rightarrow> status \<Rightarrow> world \<Rightarrow> world" where
  "set_status r st w = w\<lparr>heap := (heap w)(r := (heap w r)\<lparr>status := st\<rparr>)\<rparr>"

fun run_callback :: "callback \<Rightarrow> world \<Rightarrow> world" where
  "run_callback (SetActive r) w = set_status r ACTIVE w"
| "run_callback (Splice r) w =
     w\<lparr>sensors := splice_js (sensors w) (indexOf (sensors w) r) 1\<rparr>"

subsection \<open>Request handlers\<close>

definition find_sensor :: "world \<Rightarrow> jsnum \<Rightarrow> ref option" where
  "find_sensor w sensorId =
     find (\<lambda>r. strict_eq (js_of_nat (sid (heap w r))) sensorId) (sensors w)"

definition indexRoute :: "response \<Rightarrow> world \<Rightarrow> response \<times> world" where
  "indexRoute res w = (res_send (Text ''Greetings from space!'') res, w)"

definition getSensorIdsRoute :: "response \<Rightarrow> world \<Rightarrow> response \<times> world" where
  "getSensorIdsRoute res w = (res_json (IdsJson (map (\<lambda>r. sid (heap w r)) (sensors w))) res, w)"

definition createSensorRoute :: "rat \<Rightarrow> request \<Rightarrow> response \<Rightarrow> world \<Rightarrow> response \<times> world" where
  "createSensorRoute u req res w =
     (let frequency = js_get (body req) ''frequency'' in
      if Number_isNaN frequency then
        (res_json (ErrorJson ''missing frequency'') (res_status 400 res), w)
      else if \<not> Number_isInteger frequency then
        (res_json (ErrorJson ''invalid frequency'') (res_status 400 res), w)
      else
        let newSensor = \<lparr>sid = nextId w, frequency = frequency,
                          status = INITIALIZING, measurement = None\<rparr>;
            r = nextRef w;
            w1 = w\<lparr>nextId := nextId w + 1, heap := (heap w)(r := newSensor), nextRef := Suc r\<rparr>;
            w2 = w1\<lparr>sensors := sensors w1 @ [r]\<rparr>;
            w3 = actionAfterDelay u (SetActive r) w2
        in (res_json (SensorJson (heap w3 r)) res, w3))"

definition getSensorRoute :: "request \<Rightarrow> response \<Rightarrow> world \<Rightarrow> response \<times> world" where
  "getSensorRoute req res w =
     (let sensorId = param_id req in
      if js_not sensorId \<or> Number_isNaN (Number sensorId) then
        (res_json (ErrorJson ''invalid id'') (res_status 400 res), w)
      else case find_sensor w sensorId of
        None \<Rightarrow> (res_json (ErrorJson ''not found'') (res_status 404 res), w)
      | Some r \<Rightarrow> (res_json (SensorJson (heap w r)) res, w))"

definition changeSensorRoute :: "rat \<Rightarrow> request \<Rightarrow> response \<Rightarrow> world \<Rightarrow> response \<times> world" where
  "changeSensorRoute u req res w =
     (let sensorId = param_id req in
      if js_not sensorId \<or> Number_isNaN (Number sensorId) then
        (res_json (ErrorJson ''invalid id'') (res_status 400 res), w)
      else case find_sensor w sensorId of
        None \<Rightarrow> (res_json (ErrorJson ''not found'') (res_status 404 res), w)
      | Some r \<Rightarrow>
          if status (heap w r) \<notin> set [ACTIVE, FAILED] then
            (res_json (ErrorJson (''sensor status is '' @ status_name (status (heap w r))))
               (res_status 400 res), w)
          else let action = param_action req in
            if action = ACTION_RESTART then
              (res_json OkJson res,
               actionAfterDelay u (SetActive r) (set_status r RESTARTING w))
            else if action = ACTION_TERMINATE then
              (res_json OkJson res,
               actionAfterDelay u (Splice r) (set_status r TERMINATING w))
            else (res_json (ErrorJson ''invalid action'') (res_status 400 res), w))"

definition debugRoute :: "response \<Rightarrow> world \<Rightarrow> response \<times> world" where
  "debugRoute res w = (res_send (SensorsText (map (heap w) (sensors w))) res, w)"

subsection \<open>Background schedulers\<close>

text \<open>
  Both loops run \<open>for (let i = 0; i < sensors.length; i++)\<close>; \<open>rnd i\<close> is the value
  \<open>Math.random()\<close> returns when iteration \<open>i\<close> calls it.
\<close>

function failures_from :: "options \<Rightarrow> (nat \<Rightarrow> rat) \<Rightarrow> nat \<Rightarrow> world \<Rightarrow> world" where
  "failures_from opts rnd i w =
     (if i < length (sensors w) then
        failures_from opts rnd (i + 1)
          (if status (heap w (sensors w ! i)) = ACTIVE then
             (if rnd i < FAILURE_RATE opts then set_status (sensors w ! i) FAILED w else w)
           else w)
      else w)"
  by pat_completeness auto
termination
  by (relation "measure (\<lambda>(opts, rnd, i, w). length (sensors w) - i)")
     (auto simp: set_status_def)

definition triggerIntermittentFailures :: "options \<Rightarrow> (nat \<Rightarrow> rat) \<Rightarrow> world \<Rightarrow> world" where
  "triggerIntermittentFailures opts rnd w = failures_from opts rnd 0 w"

definition set_measurement :: "ref \<Rightarrow> rat \<Rightarrow> world \<Rightarrow> world" where
  "set_measurement r m w = w\<lparr>heap := (heap w)(r := (heap w r)\<lparr>measurement := Some m\<rparr>)\<rparr>"

function measurements_from :: "(nat \<Rightarrow> rat) \<Rightarrow> nat \<Rightarrow> world \<Rightarrow> world" where
  "measurements_from rnd i w =
     (if i < length (sensors w) then
        measurements_from rnd (i + 1)
          (if status (heap w (sensors w ! i)) = ACTIVE then
             set_measurement (sensors w ! i) (getMeasurement (rnd i)) w
           else w)
      else w)"
  by pat_completeness auto
termination
  by (relation "measure (\<lambda>(rnd, i, w). length (sensors w) - i)")
     (auto simp: set_measurement_def)

definition triggerMeasurements :: "(nat \<Rightarrow> rat) \<Rightarrow> world \<Rightarrow> world" where
  "triggerMeasurements rnd w = measurements_from rnd 0 w"

subsection \<open>Routes and the middleware in front of them\<close>

datatype route = Index | SensorIds | CreateSensor | GetSensor | ChangeSensor | Debug

datatype layer = RequestDelayLayer | RandomErrorsLayer | HandlerLayer

text \<open>
  The registrations \<open>app.get\<close> and \<open>app.post\<close>, in the order of their arguments: the
  stack of a route, which a request reaches once the middleware installed with \<open>app.use\<close>
  has let it through (see \<open>handle_request\<close> below).
\<close>

fun route_layers :: "route \<Rightarrow> layer list" where
  "route_layers Index = [HandlerLayer]"
| "route_layers SensorIds = [RequestDelayLayer, RandomErrorsLayer, HandlerLayer]"
| "route_layers CreateSensor = [RequestDelayLayer, RandomErrorsLayer, HandlerLayer]"
| "route_layers GetSensor = [RequestDelayLayer, RandomErrorsLayer, HandlerLayer]"
| "route_layers ChangeSensor = [RequestDelayLayer, RandomErrorsLayer, HandlerLayer]"
| "route_layers Debug = [HandlerLayer]"

text \<open>
  The three values \<open>Math.random()\<close> can return while one request is served: in
  \<open>getRequestDelay\<close>, in \<open>randomErrorsMiddleware\<close> and in \<open>getActionDelay\<close>.
\<close>

record draws =
  delay_roll :: rat
  error_roll :: rat
  action_roll :: rat

fun run_handler :: "route \<Rightarrow> draws \<Rightarrow> request \<Rightarrow> response \<Rightarrow> world \<Rightarrow> response \<times> world" where
  "run_handler Index dr req res w = indexRoute res w"
| "run_handler SensorIds dr req res w = getSensorIdsRoute res w"
| "run_handler CreateSensor dr req res w = createSensorRoute (action_roll dr) req res w"
| "run_handler GetSensor dr req res w = getSensorRoute req res w"
| "run_handler ChangeSensor dr req res w = changeSensorRoute (action_roll dr) req res w"
| "run_handler Debug dr req res w = debugRoute res w"

text \<open>
  What happens to a request, in order: \<open>Waited d\<close> when \<open>requestDelayMiddleware\<close> held
  it for \<open>d\<close> milliseconds before calling \<open>next\<close>, \<open>Gated\<close> when
  \<open>randomErrorsMiddleware\<close> ran, \<open>Handled\<close> when the route's handler ran.
\<close>

datatype stage = Waited rat | Gated | Handled

fun run_layers ::
  "options \<Rightarrow> route \<Rightarrow> draws \<Rightarrow> request \<Rightarrow> layer list \<Rightarrow> stage list \<times> response \<times> world
     \<Rightarrow> stage list \<times> response \<times> world" where
  "run_layers opts rt dr req [] acc = acc"
| "run_layers opts rt dr req (RequestDelayLayer # ls) (tr, res, w) =
     run_layers opts rt dr req ls (tr @ [Waited (getRequestDelay (delay_roll dr))], res, w)"
| "run_layers opts rt dr req (RandomErrorsLayer # ls) (tr, res, w) =
     (case randomErrorsMiddleware opts (error_roll dr) res of
        (res', True) \<Rightarrow> run_layers opts rt dr req ls (tr @ [Gated], res', w)
      | (res', False) \<Rightarrow> (tr @ [Gated], res', w))"
| "run_layers opts rt dr req (HandlerLayer # ls) (tr, res, w) =
     (case run_handler rt dr req res w of (res', w') \<Rightarrow> (tr @ [Handled], res', w'))"

definition serve :: "options \<Rightarrow> route \<Rightarrow> draws \<Rightarrow> request \<Rightarrow> world \<Rightarrow> stage list \<times> response \<times> world" where
  "serve opts rt dr req w = run_layers opts rt dr req (route_layers rt) ([], fresh_res, w)"

subsection \<open>The middleware installed for every route\<close>





subsection \<open>The server as a transition system\<close>

text \<open>
  One event is one run of the event loop: a request served by the stack of its route, a
  pending timer firing (the \<open>k\<close>-th of the pending ones; any of them may be the next to
  fire), or a tick of one of the two \<open>setInterval\<close> schedulers. A request that
  \<open>jsonErrorMiddleware\<close> answers never reaches a route and leaves the state as it is.
\<close>

datatype event =
    Request route draws request
  | Timeout nat
  | FailureTick "nat \<Rightarrow> rat"
  | MeasurementTick "nat \<Rightarrow> rat"

fun step :: "options \<Rightarrow> world \<Rightarrow> event \<Rightarrow> world" where
  "step opts w (Request rt dr req) = snd (snd (serve opts rt dr req w))"
| "step opts w (Timeout k) =
     (if k < length (timers w) then
        run_callback (snd (timers w ! k)) (w\<lparr>timers := take k (timers w) @ drop (Suc k) (timers w)\<rparr>)
      else w)"
| "step opts w (FailureTick rnd) = triggerIntermittentFailures opts rnd w"
| "step opts w (MeasurementTick rnd) = triggerMeasurements rnd w"

fun run :: "options \<Rightarrow> world \<Rightarrow> event list \<Rightarrow> world" where
  "run opts w [] = w"
| "run opts w (e # es) = run opts (step opts w e) es"

section \<open>Definitions used in the statements\<close>

subsection \<open>The gate as the specification words it\<close>

text \<open>
  The specification describes the gate as a choice among four fault categories: one draw is
  decremented by an ordered list of rates, and the first category whose subtraction makes
  the running value negative is applied. \<open>spec_select_fault\<close> is that description;
  \<open>fault_rates\<close> is the list of the program's four rates in the order in which
  \<open>randomErrorsMiddleware\<close> subtracts them, and \<open>fault_effect\<close> is what the branch of
  each category does to the response in the program.
\<close>

datatype fault = Hang | BadGateway | AbruptClose | MalformedBody

fun spec_select_fault :: "(rat \<times> fault) list \<Rightarrow> rat \<Rightarrow> fault option" where
  "spec_select_fault [] v = None"
| "spec_select_fault ((rate, c) # rest) v =
     (if v - rate < 0 then Some c else spec_select_fault rest (v - rate))"

definition fault_rates :: "options \<Rightarrow> (rat \<times> fault) list" where
  "fault_rates opts =
     [(ERROR_HANG_RATE opts, Hang), (ERROR_502_RATE opts, BadGateway),
      (ERROR_CLOSE_RATE opts, AbruptClose), (ERROR_TEXT_ERROR opts, MalformedBody)]"

fun fault_effect :: "fault option \<Rightarrow> response \<Rightarrow> response \<times> bool" where
  "fault_effect None res = (res, True)"
| "fault_effect (Some Hang) res = (res, False)"
| "fault_effect (Some BadGateway) res = (res_status 502 res, False)"
| "fault_effect (Some AbruptClose) res = (connection_destroy res, False)"
| "fault_effect (Some MalformedBody) res =
     (res_send (Text ERROR_TEXT_CONTENT) (res_status 500 res), False)"

subsection \<open>Ids handed out during a run\<close>

text \<open>
  \<open>created_id opts w e\<close> is the id of the Sensor that the response to \<open>e\<close> carries when
  \<open>e\<close> is a \<open>POST /sensors\<close> that created one; \<open>created_ids\<close> lists them along a
  sequence of events, in order. \<open>registry_ids\<close> is what \<open>GET /sensor-ids\<close> lists.
\<close>

fun created_id :: "options \<Rightarrow> world \<Rightarrow> event \<Rightarrow> nat option" where
  "created_id opts w (Request CreateSensor dr req) =
     (case sent (fst (snd (serve opts CreateSensor dr req w))) of
        Some (SensorJson s) \<Rightarrow> Some (sid s)
      | _ \<Rightarrow> None)"
| "created_id opts w e = None"

fun created_ids :: "options \<Rightarrow> world \<Rightarrow> event list \<Rightarrow> nat list" where
  "created_ids opts w [] = []"
| "created_ids opts w (e # es) =
     (case created_id opts w e of None \<Rightarrow> [] | Some i \<Rightarrow> [i])
       @ created_ids opts (step opts w e) es"

definition registry_ids :: "world \<Rightarrow> nat list" where
  "registry_ids w = map (\<lambda>r. sid (heap w r)) (sensors w)"

subsection \<open>The invariant of the registry and the timers\<close>

text \<open>
  In every state the server can reach, the registry holds each sensor object once, ids
  grow along the registry and stay below \<open>nextId\<close>, and each sensor object has at most one
  pending callback: one that sets \<open>ACTIVE\<close> while the sensor is \<open>INITIALIZING\<close> or
  \<open>RESTARTING\<close>, or one that removes it while it is \<open>TERMINATING\<close> and still in the
  registry.
\<close>

fun cb_ref :: "callback \<Rightarrow> ref" where
  "cb_ref (SetActive r) = r"
| "cb_ref (Splice r) = r"

fun cb_ok :: "world \<Rightarrow> callback \<Rightarrow> bool" where
  "cb_ok w (SetActive r) = (status (heap w r) \<in> {INITIALIZING, RESTARTING})"
| "cb_ok w (Splice r) = (r \<in> set (sensors w) \<and> status (heap w r) = TERMINATING)"

definition consistent :: "world \<Rightarrow> bool" where
  "consistent w \<longleftrightarrow>
     distinct (sensors w)
     \<and> (\<forall>r \<in> set (sensors w). r < nextRef w)
     \<and> sorted_wrt (<) (registry_ids w)
     \<and> (\<forall>i \<in> set (registry_ids w). i < nextId w)
     \<and> distinct (map (\<lambda>t. cb_ref (snd t)) (timers w))
     \<and> (\<forall>t \<in> set (timers w). cb_ref (snd t) < nextRef w \<and> cb_ok w (snd t))"

text \<open>
  The state a successful \<open>createSensorRoute\<close> leaves, and the two shapes a step can have:
  it adds one sensor with the id \<open>nextId\<close>, or it adds none and leaves both counters.
\<close>

definition created_world :: "rat \<Rightarrow> jsval \<Rightarrow> world \<Rightarrow> world" where
  "created_world u f w =
     w\<lparr>nextId := nextId w + 1,
       heap := (heap w)(nextRef w := \<lparr>sid = nextId w, frequency = f,
                 status = INITIALIZING, measurement = None\<rparr>),
       nextRef := Suc (nextRef w),
       sensors := sensors w @ [nextRef w],
       timers := timers w @ [(getActionDelay u, SetActive (nextRef w))]\<rparr>"

definition grows :: "options \<Rightarrow> world \<Rightarrow> event \<Rightarrow> bool" where
  "grows opts w e \<longleftrightarrow>
     created_id opts w e = Some (nextId w)
     \<and> sensors (step opts w e) = sensors w @ [nextRef w]
     \<and> registry_ids (step opts w e) = registry_ids w @ [nextId w]
     \<and> nextId (step opts w e) = Suc (nextId w)
     \<and> nextRef (step opts w e) = Suc (nextRef w)"

definition keeps :: "options \<Rightarrow> world \<Rightarrow> event \<Rightarrow> bool" where
  "keeps opts w e \<longleftrightarrow>
     created_id opts w e = None
     \<and> set (sensors (step opts w e)) \<subseteq> set (sensors w)
     \<and> set (registry_ids (step opts w e)) \<subseteq> set (registry_ids w)
     \<and> nextId (step opts w e) = nextId w
     \<and> nextRef (step opts w e) = nextRef w"

text \<open>
  A removal of the sensor object \<open>r\<close> is pending when one of the timers holds its
  callback; \<open>r\<close>, whose id was \<open>i\<close>, is removed when it is not in the registry, no
  sensor of the registry has the id \<open>i\<close>, and both counters are past them.
\<close>

definition pending_removal :: "world \<Rightarrow> ref \<Rightarrow> bool" where
  "pending_removal w r \<longleftrightarrow> (\<exists>k < length (timers w). snd (timers w ! k) = Splice r)"

definition removed :: "world \<Rightarrow> ref \<Rightarrow> nat \<Rightarrow> bool" where
  "removed w r i \<longleftrightarrow>
     r < nextRef w \<and> r \<notin> set (sensors w) \<and> i < nextId w \<and> i \<notin> set (registry_ids w)"

subsection \<open>Sample inputs\<close>

definition reliable :: options where
  "reliable = \<lparr>unreliable = False, failSensors = False\<rparr>"

definition flaky :: options where
  "flaky = \<lparr>unreliable = True, failSensors = False\<rparr>"

definition failing :: options where
  "failing = \<lparr>unreliable = False, failSensors = True\<rparr>"

definition no_draws :: draws where
  "no_draws = \<lparr>delay_roll = 0, error_roll = 0, action_roll = 0\<rparr>"

definition plain_request :: request where
  "plain_request = \<lparr>param_id = NaN, param_action = [], body = []\<rparr>"

definition create_request :: request where
  "create_request = plain_request\<lparr>body := [(''frequency'', Number (Finite 2))]\<rparr>"

definition terminate_request :: request where
  "terminate_request = plain_request\<lparr>param_id := Finite 1, param_action := ''terminate''\<rparr>"



text \<open>
  \<open>startup\<close> creates sensor 1 and lets its activation timer fire; \<open>two_sensors\<close> then
  creates sensor 2; \<open>terminating\<close> then has \<open>terminate\<close> accepted on sensor 1;
  \<open>churn\<close> creates sensor 1, terminates it, lets the removal fire and creates sensor 2.
\<close>

definition startup :: "event list" where
  "startup = [Request CreateSensor no_draws create_request, Timeout 0]"

definition two_sensors :: "event list" where
  "two_sensors = startup @ [Request CreateSensor no_draws create_request]"

definition terminating :: "event list" where
  "terminating = two_sensors @ [Request ChangeSensor no_draws terminate_request]"

definition churn :: "event list" where
  "churn = startup @ [Request ChangeSensor no_draws terminate_request, Timeout 0,
     Request CreateSensor no_draws create_request]"

section \<open>Lemmas\<close>

subsection \<open>Evaluation of the sample runs\<close>

lemmas eval_defs =
  reliable_def no_draws_def plain_request_def create_request_def terminate_request_def
  startup_def init_def serve_def randomErrorsMiddleware_def ERROR_HANG_RATE_def
  ERROR_502_RATE_def ERROR_CLOSE_RATE_def ERROR_TEXT_ERROR_def createSensorRoute_def
  changeSensorRoute_def getSensorRoute_def find_sensor_def js_get_def Number_isNaN_def
  Number_isInteger_def js_not_def strict_eq_def js_of_nat_def actionAfterDelay_def
  setTimeout_def set_status_def getActionDelay_def getRequestDelay_def DELAY_REQ_MIN_def
  DELAY_REQ_MAX_def DELAY_ACTION_MIN_def DELAY_ACTION_MAX_def ACTION_RESTART_def
  ACTION_TERMINATE_def fresh_res_def res_json_def res_status_def splice_js_def Let_def

lemma w_startup:
  "run reliable init startup =
     \<lparr>nextId = 2, sensors = [0],
      heap = (\<lambda>_. blank)(0 := \<lparr>sid = 1, frequency = Number (Finite 2), status = ACTIVE,
                 measurement = None\<rparr>),
      nextRef = 1, timers = []\<rparr>"
  by (simp add: eval_defs)

lemma gate_reliable: "0 \<le> roll \<Longrightarrow> randomErrorsMiddleware reliable roll res = (res, True)"
  by (simp add: randomErrorsMiddleware_def reliable_def ERROR_HANG_RATE_def
      ERROR_502_RATE_def ERROR_CLOSE_RATE_def ERROR_TEXT_ERROR_def)

subsection \<open>The scheduler loops\<close>

lemma sensors_set_status [simp]: "sensors (set_status r st w) = sensors w"
  by (simp add: set_status_def)

lemma sensors_set_measurement [simp]: "sensors (set_measurement r m w) = sensors w"
  by (simp add: set_measurement_def)

lemma status_set_measurement [simp]:
  "status (heap (set_measurement r m w) r') = status (heap w r')"
  by (simp add: set_measurement_def)

lemma measurement_set_status [simp]:
  "measurement (heap (set_status r st w) r') = measurement (heap w r')"
  by (simp add: set_status_def)

declare measurements_from.simps [simp del] failures_from.simps [simp del]

lemma measurements_from_sensors: "sensors (measurements_from rnd i w) = sensors w"
  by (induction rnd i w rule: measurements_from.induct)
     (subst measurements_from.simps, simp)

lemma measurements_from_status:
  "status (heap (measurements_from rnd i w) r) = status (heap w r)"
  by (induction rnd i w rule: measurements_from.induct)
     (subst measurements_from.simps, simp)

lemma measurements_from_inactive:
  "status (heap w r) \<noteq> ACTIVE \<Longrightarrow>
   measurement (heap (measurements_from rnd i w) r) = measurement (heap w r)"
proof (induction rnd i w rule: measurements_from.induct)
  case (1 rnd i w)
  show ?case
  proof (cases "i < length (sensors w)")
    case False
    then show ?thesis by (subst measurements_from.simps) simp
  next
    case True
    show ?thesis
    proof (cases "status (heap w (sensors w ! i)) = ACTIVE")
      case act: True
      with "1.prems" have ne: "sensors w ! i \<noteq> r" by auto
      have "measurement (heap (measurements_from rnd (i + 1)
              (set_measurement (sensors w ! i) (getMeasurement (rnd i)) w)) r)
            = measurement (heap (set_measurement (sensors w ! i) (getMeasurement (rnd i)) w) r)"
        using "1.IH" [OF True] "1.prems" act by simp
      also have "\<dots> = measurement (heap w r)"
        using ne by (simp add: set_measurement_def)
      finally show ?thesis
        using True act by (subst measurements_from.simps) simp
    next
      case False
      with True "1.IH" [OF True] "1.prems" show ?thesis
        by (subst measurements_from.simps) simp
    qed
  qed
qed

lemma measurements_from_active:
  "distinct (sensors w) \<Longrightarrow> j < length (sensors w) \<Longrightarrow>
   measurement (heap (measurements_from rnd i w) (sensors w ! j)) =
     (if i \<le> j \<and> status (heap w (sensors w ! j)) = ACTIVE
      then Some (getMeasurement (rnd j)) else measurement (heap w (sensors w ! j)))"
proof (induction rnd i w rule: measurements_from.induct)
  case (1 rnd i w)
  show ?case
  proof (cases "i < length (sensors w)")
    case False
    with "1.prems" show ?thesis by (subst measurements_from.simps) simp
  next
    case True
    let ?w' = "if status (heap w (sensors w ! i)) = ACTIVE
               then set_measurement (sensors w ! i) (getMeasurement (rnd i)) w else w"
    have s: "sensors ?w' = sensors w" by simp
    have st: "\<And>r. status (heap ?w' r) = status (heap w r)" by simp
    have unf: "measurements_from rnd i w = measurements_from rnd (i + 1) ?w'"
      using True by (subst measurements_from.simps) simp
    have ih: "measurement (heap (measurements_from rnd (i + 1) ?w') (sensors w ! j)) =
       (if i + 1 \<le> j \<and> status (heap w (sensors w ! j)) = ACTIVE
        then Some (getMeasurement (rnd j)) else measurement (heap ?w' (sensors w ! j)))"
      using "1.IH" [OF True] "1.prems" s st by simp
    have here: "measurement (heap ?w' (sensors w ! j)) =
       (if i = j \<and> status (heap w (sensors w ! j)) = ACTIVE
        then Some (getMeasurement (rnd j)) else measurement (heap w (sensors w ! j)))"
      using "1.prems" True by (auto simp: set_measurement_def nth_eq_iff_index_eq)
    show ?thesis unfolding unf ih here by auto
  qed
qed

lemma failures_from_sensors: "sensors (failures_from opts rnd i w) = sensors w"
  by (induction opts rnd i w rule: failures_from.induct)
     (subst failures_from.simps, simp)

lemma failures_from_measurement:
  "measurement (heap (failures_from opts rnd i w) r) = measurement (heap w r)"
  by (induction opts rnd i w rule: failures_from.induct)
     (subst failures_from.simps, simp)

lemma failures_from_status:
  "status (heap (failures_from opts rnd i w) r) = status (heap w r)
   \<or> status (heap w r) = ACTIVE \<and> status (heap (failures_from opts rnd i w) r) = FAILED"
proof (induction opts rnd i w rule: failures_from.induct)
  case (1 opts rnd i w)
  show ?case
  proof (cases "i < length (sensors w)")
    case False
    then show ?thesis by (subst failures_from.simps) simp
  next
    case True
    define w' where "w' = (if status (heap w (sensors w ! i)) = ACTIVE
               then (if rnd i < FAILURE_RATE opts then set_status (sensors w ! i) FAILED w else w)
               else w)"
    have unf: "failures_from opts rnd i w = failures_from opts rnd (i + 1) w'"
      using True unfolding w'_def by (subst failures_from.simps) simp
    have here: "status (heap w' r) = status (heap w r)
       \<or> status (heap w r) = ACTIVE \<and> status (heap w' r) = FAILED"
      by (auto simp: w'_def set_status_def)
    have ih: "status (heap (failures_from opts rnd (i + 1) w') r) = status (heap w' r)
       \<or> status (heap w' r) = ACTIVE \<and> status (heap (failures_from opts rnd (i + 1) w') r) = FAILED"
      using "1.IH" [OF True] unfolding w'_def .
    from ih here show ?thesis unfolding unf by auto
  qed
qed

lemma failures_from_active:
  "distinct (sensors w) \<Longrightarrow> j < length (sensors w) \<Longrightarrow>
   status (heap (failures_from opts rnd i w) (sensors w ! j)) =
     (if i \<le> j \<and> status (heap w (sensors w ! j)) = ACTIVE \<and> rnd j < FAILURE_RATE opts
      then FAILED else status (heap w (sensors w ! j)))"
proof (induction opts rnd i w rule: failures_from.induct)
  case (1 opts rnd i w)
  show ?case
  proof (cases "i < length (sensors w)")
    case False
    with "1.prems" show ?thesis by (subst failures_from.simps) simp
  next
    case True
    let ?w' = "if status (heap w (sensors w ! i)) = ACTIVE
               then (if rnd i < FAILURE_RATE opts then set_status (sensors w ! i) FAILED w else w)
               else w"
    have s: "sensors ?w' = sensors w" by simp
    have unf: "failures_from opts rnd i w = failures_from opts rnd (i + 1) ?w'"
      using True by (subst failures_from.simps) simp
    have here: "status (heap ?w' (sensors w ! j)) =
       (if i = j \<and> status (heap w (sensors w ! j)) = ACTIVE \<and> rnd j < FAILURE_RATE opts
        then FAILED else status (heap w (sensors w ! j)))"
      using "1.prems" True by (auto simp: set_status_def nth_eq_iff_index_eq)
    have ih: "status (heap (failures_from opts rnd (i + 1) ?w') (sensors w ! j)) =
       (if i + 1 \<le> j \<and> status (heap ?w' (sensors w ! j)) = ACTIVE \<and> rnd j < FAILURE_RATE opts
        then FAILED else status (heap ?w' (sensors w ! j)))"
      using "1.IH" [OF True] "1.prems" s by simp
    show ?thesis unfolding unf ih here by auto
  qed
qed

subsection \<open>indexOf and splice\<close>

lemma indexOf_absent: "x \<notin> set xs \<Longrightarrow> indexOf xs x = - 1"
  by (induction xs) auto

lemma indexOf_present:
  "x \<in> set xs \<Longrightarrow> indexOf xs x = int (length (takeWhile (\<lambda>y. y \<noteq> x) xs))"
  by (induction xs) (auto simp: Let_def)

lemma take_drop_remove1:
  "x \<in> set xs \<Longrightarrow>
   take (length (takeWhile (\<lambda>y. y \<noteq> x) xs)) xs
     @ drop (Suc (length (takeWhile (\<lambda>y. y \<noteq> x) xs))) xs = remove1 x xs"
  by (induction xs) auto

lemma splice_indexOf_present:
  assumes "x \<in> set xs"
  shows "splice_js xs (indexOf xs x) (Suc 0) = remove1 x xs"
proof -
  let ?n = "length (takeWhile (\<lambda>y. y \<noteq> x) xs)"
  have lt: "?n < length xs"
    using assms by (induction xs) auto
  then have "splice_js xs (int ?n) 1 = take ?n xs @ drop (Suc ?n) xs"
    by (simp add: splice_js_def Let_def min_def)
  with assms show ?thesis
    by (simp add: indexOf_present take_drop_remove1)
qed

lemma splice_indexOf_absent:
  assumes "x \<notin> set xs"
  shows "splice_js xs (indexOf xs x) (Suc 0) = butlast xs"
proof (cases "xs = []")
  case True
  then show ?thesis by (simp add: splice_js_def)
next
  case False
  then have pos: "0 < length xs" by simp
  then have n: "nat (int (length xs) - 1) = length xs - 1" by simp
  have "splice_js xs (- 1) 1 = take (length xs - 1) xs @ drop (length xs - 1 + 1) xs"
    using pos n by (cases xs) (simp_all add: splice_js_def Let_def max_def min_def)
  also have "\<dots> = butlast xs"
    using pos by (simp add: butlast_conv_take)
  finally show ?thesis using assms by (simp add: indexOf_absent)
qed

lemma set_splice_subset: "set (splice_js xs i n) \<subseteq> set xs"
proof -
  have "set (take a xs @ drop b xs) \<subseteq> set xs" for a b
    using set_take_subset [of a xs] set_drop_subset [of b xs] by auto
  then show ?thesis by (simp add: splice_js_def Let_def del: set_append)
qed

subsection \<open>Fields a step leaves alone\<close>

lemma set_status_fields [simp]:
  "nextId (set_status r st w) = nextId w"
  "nextRef (set_status r st w) = nextRef w"
  "timers (set_status r st w) = timers w"
  "sid (heap (set_status r st w) r') = sid (heap w r')"
  "status (heap (set_status r st w) r') = (if r' = r then st else status (heap w r'))"
  by (simp_all add: set_status_def)

lemma set_measurement_fields [simp]:
  "nextId (set_measurement r m w) = nextId w"
  "nextRef (set_measurement r m w) = nextRef w"
  "timers (set_measurement r m w) = timers w"
  "sid (heap (set_measurement r m w) r') = sid (heap w r')"
  by (simp_all add: set_measurement_def)

lemma actionAfterDelay_fields [simp]:
  "nextId (actionAfterDelay u cb w) = nextId w"
  "nextRef (actionAfterDelay u cb w) = nextRef w"
  "sensors (actionAfterDelay u cb w) = sensors w"
  "heap (actionAfterDelay u cb w) = heap w"
  "timers (actionAfterDelay u cb w) = timers w @ [(getActionDelay u, cb)]"
  by (simp_all add: actionAfterDelay_def setTimeout_def)

lemma measurements_from_nextId: "nextId (measurements_from rnd i w) = nextId w"
  by (induction rnd i w rule: measurements_from.induct)
     (subst measurements_from.simps, simp)

lemma measurements_from_nextRef: "nextRef (measurements_from rnd i w) = nextRef w"
  by (induction rnd i w rule: measurements_from.induct)
     (subst measurements_from.simps, simp)

lemma measurements_from_timers: "timers (measurements_from rnd i w) = timers w"
  by (induction rnd i w rule: measurements_from.induct)
     (subst measurements_from.simps, simp)

lemma measurements_from_sid: "sid (heap (measurements_from rnd i w) r) = sid (heap w r)"
  by (induction rnd i w rule: measurements_from.induct)
     (subst measurements_from.simps, simp)

lemmas measurements_from_fields =
  measurements_from_nextId measurements_from_nextRef measurements_from_timers
  measurements_from_sid

lemma failures_from_nextId: "nextId (failures_from opts rnd i w) = nextId w"
  by (induction opts rnd i w rule: failures_from.induct)
     (subst failures_from.simps, simp)

lemma failures_from_nextRef: "nextRef (failures_from opts rnd i w) = nextRef w"
  by (induction opts rnd i w rule: failures_from.induct)
     (subst failures_from.simps, simp)

lemma failures_from_timers: "timers (failures_from opts rnd i w) = timers w"
  by (induction opts rnd i w rule: failures_from.induct)
     (subst failures_from.simps, simp)

lemma failures_from_sid: "sid (heap (failures_from opts rnd i w) r) = sid (heap w r)"
  by (induction opts rnd i w rule: failures_from.induct)
     (subst failures_from.simps, simp)

lemmas failures_from_fields =
  failures_from_nextId failures_from_nextRef failures_from_timers failures_from_sid

subsection \<open>What a request can do to the state\<close>

lemma find_sensor_Some:
  "find_sensor w n = Some r \<Longrightarrow> r \<in> set (sensors w) \<and> n = js_of_nat (sid (heap w r))"
  by (auto simp: find_sensor_def find_Some_iff strict_eq_def)

lemma find_sensor_None:
  "find_sensor w (js_of_nat i) = None \<longleftrightarrow> i \<notin> set (registry_ids w)"
  by (auto simp: find_sensor_def find_None_iff strict_eq_def js_of_nat_def registry_ids_def)

lemma createSensorRoute_world:
  "snd (createSensorRoute u req res w) = w
   \<or> snd (createSensorRoute u req res w) = created_world u (js_get (body req) ''frequency'') w"
  by (simp add: createSensorRoute_def created_world_def Let_def actionAfterDelay_def
      setTimeout_def)

lemma changeSensorRoute_world:
  "snd (changeSensorRoute u req res w) = w
   \<or> (\<exists>r. find_sensor w (param_id req) = Some r \<and> status (heap w r) \<in> {ACTIVE, FAILED}
        \<and> (snd (changeSensorRoute u req res w)
              = actionAfterDelay u (SetActive r) (set_status r RESTARTING w)
            \<or> snd (changeSensorRoute u req res w)
              = actionAfterDelay u (Splice r) (set_status r TERMINATING w)))"
  by (simp add: changeSensorRoute_def Let_def split: option.splits)

lemma run_handler_world:
  "snd (run_handler rt dr req res w) = w
   \<or> snd (run_handler rt dr req res w)
        = created_world (action_roll dr) (js_get (body req) ''frequency'') w
   \<or> (\<exists>r. find_sensor w (param_id req) = Some r \<and> status (heap w r) \<in> {ACTIVE, FAILED}
        \<and> (snd (run_handler rt dr req res w)
              = actionAfterDelay (action_roll dr) (SetActive r) (set_status r RESTARTING w)
            \<or> snd (run_handler rt dr req res w)
              = actionAfterDelay (action_roll dr) (Splice r) (set_status r TERMINATING w)))"
proof (cases rt)
  case CreateSensor
  then show ?thesis using createSensorRoute_world [of "action_roll dr" req res w] by auto
next
  case ChangeSensor
  then show ?thesis using changeSensorRoute_world [of "action_roll dr" req res w] by auto
qed (simp_all add: indexRoute_def getSensorIdsRoute_def getSensorRoute_def debugRoute_def
      Let_def split: option.splits)

lemma serve_world:
  "snd (snd (serve opts rt dr req w)) = w
   \<or> (\<exists>res. snd (snd (serve opts rt dr req w)) = snd (run_handler rt dr req res w))"
  by (cases rt) (auto simp: serve_def split: prod.splits bool.splits)

lemma gate_sent:
  "sent (fst (randomErrorsMiddleware opts roll res)) = sent res
   \<or> sent (fst (randomErrorsMiddleware opts roll res)) = Some (Text ERROR_TEXT_CONTENT)"
  by (simp add: randomErrorsMiddleware_def Let_def res_status_def res_send_def
      connection_destroy_def)

lemma gate_next:
  "snd (randomErrorsMiddleware opts roll res) \<Longrightarrow> fst (randomErrorsMiddleware opts roll res) = res"
  by (simp add: randomErrorsMiddleware_def Let_def split: if_splits)

lemma createSensorRoute_cases:
  "(\<exists>msg. createSensorRoute u req fresh_res w
            = (res_json (ErrorJson msg) (res_status 400 fresh_res), w))
   \<or> createSensorRoute u req fresh_res w
        = (res_json (SensorJson \<lparr>sid = nextId w, frequency = js_get (body req) ''frequency'',
                       status = INITIALIZING, measurement = None\<rparr>) fresh_res,
           created_world u (js_get (body req) ''frequency'') w)"
  by (auto simp: createSensorRoute_def created_world_def Let_def actionAfterDelay_def
      setTimeout_def)

lemma serve_create:
  "created_id opts w (Request CreateSensor dr req) = None
     \<and> step opts w (Request CreateSensor dr req) = w
   \<or> created_id opts w (Request CreateSensor dr req) = Some (nextId w)
     \<and> step opts w (Request CreateSensor dr req)
         = created_world (action_roll dr) (js_get (body req) ''frequency'') w"
proof -
  obtain res' b where g: "randomErrorsMiddleware opts (error_roll dr) fresh_res = (res', b)"
    by (cases "randomErrorsMiddleware opts (error_roll dr) fresh_res")
  show ?thesis
  proof (cases b)
    case False
    with g have "serve opts CreateSensor dr req w
       = ([Waited (getRequestDelay (delay_roll dr)), Gated], res', w)"
      by (simp add: serve_def)
    with gate_sent [of opts "error_roll dr" fresh_res] g show ?thesis
      by (auto simp: fresh_res_def)
  next
    case True
    with g gate_next [of opts "error_roll dr" fresh_res] have "res' = fresh_res" by simp
    with g True have "serve opts CreateSensor dr req w
       = (case createSensorRoute (action_roll dr) req fresh_res w of
            (res', w') \<Rightarrow> ([Waited (getRequestDelay (delay_roll dr)), Gated, Handled], res', w'))"
      by (simp add: serve_def)
    with createSensorRoute_cases [of "action_roll dr" req w] show ?thesis
      by (auto simp: res_json_def)
  qed
qed

lemma serve_change_accepted:
  assumes "serve opts ChangeSensor dr req w = (tr, res, w')" and "sent res = Some OkJson"
  shows "\<not> js_not (param_id req) \<and> res = \<lparr>statusCode = 200, sent = Some OkJson, destroyed = False\<rparr>
    \<and> (\<exists>r. find_sensor w (param_id req) = Some r \<and> status (heap w r) \<in> {ACTIVE, FAILED}
         \<and> (param_action req = ACTION_RESTART
               \<and> w' = actionAfterDelay (action_roll dr) (SetActive r) (set_status r RESTARTING w)
             \<or> param_action req = ACTION_TERMINATE
               \<and> w' = actionAfterDelay (action_roll dr) (Splice r) (set_status r TERMINATING w)))"
proof -
  obtain res' b where g: "randomErrorsMiddleware opts (error_roll dr) fresh_res = (res', b)"
    by (cases "randomErrorsMiddleware opts (error_roll dr) fresh_res")
  show ?thesis
  proof (cases b)
    case False
    with g assms(1) have "res = res'" by (simp add: serve_def)
    with gate_sent [of opts "error_roll dr" fresh_res] g assms(2) show ?thesis
      by (auto simp: fresh_res_def)
  next
    case True
    with g gate_next [of opts "error_roll dr" fresh_res] have "res' = fresh_res" by simp
    with g True assms(1) have h: "changeSensorRoute (action_roll dr) req fresh_res w = (res, w')"
      by (simp add: serve_def split: prod.splits)
    with assms(2) show ?thesis
      by (auto simp: changeSensorRoute_def Let_def res_json_def res_status_def fresh_res_def
          ACTION_RESTART_def ACTION_TERMINATE_def split: if_splits option.splits)
  qed
qed

subsection \<open>The invariant holds in every reachable state\<close>

lemma cb_ok_cong:
  "set (sensors w') = set (sensors w) \<Longrightarrow>
   status (heap w' (cb_ref cb)) = status (heap w (cb_ref cb)) \<Longrightarrow> cb_ok w' cb = cb_ok w cb"
  by (cases cb) simp_all

lemma cb_ok_status:
  "cb_ok w cb \<Longrightarrow> status (heap w (cb_ref cb)) \<in> {INITIALIZING, RESTARTING, TERMINATING}"
  by (cases cb) auto

lemma consistent_frame:
  assumes "consistent w"
    and "sensors w' = sensors w" and "nextRef w' = nextRef w" and "nextId w' = nextId w"
    and "timers w' = timers w"
    and "\<And>r. sid (heap w' r) = sid (heap w r)"
    and "\<And>t. t \<in> set (timers w) \<Longrightarrow>
           status (heap w' (cb_ref (snd t))) = status (heap w (cb_ref (snd t)))"
  shows "consistent w'"
proof -
  have ids: "registry_ids w' = registry_ids w"
    using assms(2,6) by (simp add: registry_ids_def)
  have ok: "\<And>t. t \<in> set (timers w) \<Longrightarrow> cb_ok w' (snd t) = cb_ok w (snd t)"
    by (rule cb_ok_cong) (simp_all add: assms(2,7))
  from assms(1) show ?thesis
    unfolding consistent_def ids assms(2,3,4,5) using ok by simp
qed

lemma consistent_init: "consistent init"
  by (simp add: consistent_def init_def registry_ids_def)

lemma consistent_measurements:
  assumes "consistent w"
  shows "consistent (triggerMeasurements rnd w)"
  unfolding triggerMeasurements_def
  by (rule consistent_frame [OF assms])
     (simp_all add: measurements_from_sensors measurements_from_fields measurements_from_status)

lemma consistent_failures:
  assumes "consistent w"
  shows "consistent (triggerIntermittentFailures opts rnd w)"
  unfolding triggerIntermittentFailures_def
proof (rule consistent_frame [OF assms])
  fix t assume "t \<in> set (timers w)"
  with assms have "cb_ok w (snd t)" by (simp add: consistent_def)
  then have "status (heap w (cb_ref (snd t))) \<noteq> ACTIVE"
    using cb_ok_status by fastforce
  with failures_from_status [of opts rnd 0 w "cb_ref (snd t)"]
  show "status (heap (failures_from opts rnd 0 w) (cb_ref (snd t)))
          = status (heap w (cb_ref (snd t)))"
    by auto
qed (simp_all add: failures_from_sensors failures_from_fields)

lemma consistent_created:
  assumes "consistent w"
  shows "consistent (created_world u f w)"
proof -
  let ?w = "created_world u f w"
  have old: "\<And>r. r < nextRef w \<Longrightarrow> heap ?w r = heap w r"
    by (simp add: created_world_def)
  have s_lt: "\<And>r. r \<in> set (sensors w) \<Longrightarrow> r < nextRef w"
    and t_lt: "\<And>t. t \<in> set (timers w) \<Longrightarrow> cb_ref (snd t) < nextRef w"
    and t_ok: "\<And>t. t \<in> set (timers w) \<Longrightarrow> cb_ok w (snd t)"
    using assms by (auto simp: consistent_def)
  have ids: "registry_ids ?w = registry_ids w @ [nextId w]"
    using s_lt by (auto simp: registry_ids_def created_world_def)
  have d1: "distinct (sensors ?w)"
    using assms s_lt by (auto simp: consistent_def created_world_def)
  have d2: "\<forall>r \<in> set (sensors ?w). r < nextRef ?w"
    using s_lt by (auto simp: created_world_def less_Suc_eq)
  have d3: "sorted_wrt (<) (registry_ids ?w)"
    using assms unfolding ids by (auto simp: consistent_def sorted_wrt_append)
  have d4: "\<forall>i \<in> set (registry_ids ?w). i < nextId ?w"
    using assms unfolding ids by (auto simp: consistent_def created_world_def less_Suc_eq)
  have "nextRef w \<notin> (\<lambda>t. cb_ref (snd t)) ` set (timers w)"
    using t_lt by force
  then have d5: "distinct (map (\<lambda>t. cb_ref (snd t)) (timers ?w))"
    using assms by (simp add: consistent_def created_world_def)
  have d6: "\<forall>t \<in> set (timers ?w). cb_ref (snd t) < nextRef ?w \<and> cb_ok ?w (snd t)"
  proof
    fix t assume t: "t \<in> set (timers ?w)"
    show "cb_ref (snd t) < nextRef ?w \<and> cb_ok ?w (snd t)"
    proof (cases "t \<in> set (timers w)")
      case True
      have "cb_ok ?w (snd t)"
        using t_ok [OF True] t_lt [OF True] old [of "cb_ref (snd t)"]
        by (cases "snd t") (auto simp: created_world_def)
      with t_lt [OF True] show ?thesis by (simp add: created_world_def less_Suc_eq)
    next
      case False
      with t have "t = (getActionDelay u, SetActive (nextRef w))"
        by (simp add: created_world_def)
      then show ?thesis by (simp add: created_world_def)
    qed
  qed
  from d1 d2 d3 d4 d5 d6 show ?thesis unfolding consistent_def by blast
qed

lemma consistent_action:
  assumes "consistent w" and "r \<in> set (sensors w)" and "status (heap w r) \<in> {ACTIVE, FAILED}"
    and "cb = SetActive r \<and> st = RESTARTING \<or> cb = Splice r \<and> st = TERMINATING"
  shows "consistent (actionAfterDelay u cb (set_status r st w))"
proof -
  let ?w = "actionAfterDelay u cb (set_status r st w)"
  have t_ok: "\<And>t. t \<in> set (timers w) \<Longrightarrow> cb_ok w (snd t)"
    and t_lt: "\<And>t. t \<in> set (timers w) \<Longrightarrow> cb_ref (snd t) < nextRef w"
    using assms(1) by (auto simp: consistent_def)
  have ne: "\<And>t. t \<in> set (timers w) \<Longrightarrow> cb_ref (snd t) \<noteq> r"
    using cb_ok_status [OF t_ok] assms(3) by fastforce
  have ref: "cb_ref cb = r" using assms(4) by auto
  have ids: "registry_ids ?w = registry_ids w"
    by (simp add: registry_ids_def)
  have "r \<notin> (\<lambda>t. cb_ref (snd t)) ` set (timers w)"
    using ne by force
  then have d5: "distinct (map (\<lambda>t. cb_ref (snd t)) (timers ?w))"
    using assms(1) ref by (simp add: consistent_def)
  have d6: "\<forall>t \<in> set (timers ?w). cb_ref (snd t) < nextRef ?w \<and> cb_ok ?w (snd t)"
  proof
    fix t assume t: "t \<in> set (timers ?w)"
    show "cb_ref (snd t) < nextRef ?w \<and> cb_ok ?w (snd t)"
    proof (cases "t \<in> set (timers w)")
      case True
      have "cb_ok ?w (snd t) = cb_ok w (snd t)"
        using ne [OF True] by (intro cb_ok_cong) simp_all
      with t_ok [OF True] t_lt [OF True] show ?thesis by simp
    next
      case False
      with t have "snd t = cb" by simp
      with assms(1,2,4) show ?thesis by (auto simp: consistent_def)
    qed
  qed
  from assms(1) d5 d6 show ?thesis
    unfolding consistent_def ids by simp
qed

lemma distinct_map_without_nth:
  assumes "distinct (map f xs)" and "k < length xs"
  shows "distinct (map f (take k xs @ drop (Suc k) xs))"
    and "\<And>t. t \<in> set (take k xs @ drop (Suc k) xs) \<Longrightarrow> f t \<noteq> f (xs ! k)"
proof -
  have "xs = take k xs @ xs ! k # drop (Suc k) xs"
    using assms(2) by (rule id_take_nth_drop)
  then have d: "distinct (map f (take k xs @ xs ! k # drop (Suc k) xs))"
    using assms(1) by simp
  from d show "distinct (map f (take k xs @ drop (Suc k) xs))"
    by auto
  from d have "f (xs ! k) \<notin> f ` set (take k xs)" and "f (xs ! k) \<notin> f ` set (drop (Suc k) xs)"
    by auto
  then show "\<And>t. t \<in> set (take k xs @ drop (Suc k) xs) \<Longrightarrow> f t \<noteq> f (xs ! k)"
    by (metis UnE image_eqI set_append)
qed

lemma set_without_nth: "set (take k xs @ drop (Suc k) xs) \<subseteq> set xs"
  using set_take_subset set_drop_subset by fastforce

lemma sorted_wrt_remove1:
  assumes "distinct xs" and "sorted_wrt (<) (map f xs)"
  shows "sorted_wrt (<) (map f (remove1 x xs))"
proof -
  have "remove1 x xs = filter (\<lambda>y. y \<noteq> x) xs"
    using assms(1) by (simp add: distinct_remove1_removeAll removeAll_filter_not_eq) metis
  moreover have "sorted_wrt (\<lambda>a b. f a < f b) (filter (\<lambda>y. y \<noteq> x) xs)"
    using assms(2) by (simp add: sorted_wrt_map sorted_wrt_filter)
  ultimately show ?thesis by (simp add: sorted_wrt_map)
qed

lemma consistent_timeout:
  assumes c: "consistent w" and k: "k < length (timers w)"
  shows "consistent (step opts w (Timeout k))"
proof -
  let ?rest = "take k (timers w) @ drop (Suc k) (timers w)"
  let ?f = "\<lambda>t. cb_ref (snd t)"
  have mem: "timers w ! k \<in> set (timers w)" using k by simp
  have sub: "\<And>t. t \<in> set ?rest \<Longrightarrow> t \<in> set (timers w)"
    using set_without_nth [of k "timers w"] by blast
  have dist: "distinct (map ?f ?rest)"
    and ne: "\<And>t. t \<in> set ?rest \<Longrightarrow> ?f t \<noteq> ?f (timers w ! k)"
    using distinct_map_without_nth [of ?f "timers w" k] c k by (simp_all add: consistent_def)
  have t_ok: "\<And>t. t \<in> set (timers w) \<Longrightarrow> cb_ok w (snd t)"
    and t_lt: "\<And>t. t \<in> set (timers w) \<Longrightarrow> cb_ref (snd t) < nextRef w"
    using c by (auto simp: consistent_def)
  show ?thesis
  proof (cases "snd (timers w ! k)")
    case (SetActive r)
    let ?w = "set_status r ACTIVE (w\<lparr>timers := ?rest\<rparr>)"
    have st: "step opts w (Timeout k) = ?w" using k SetActive by simp
    have ids: "registry_ids ?w = registry_ids w" by (simp add: registry_ids_def)
    have d6: "\<forall>t \<in> set ?rest. cb_ref (snd t) < nextRef w \<and> cb_ok ?w (snd t)"
    proof
      fix t assume t: "t \<in> set ?rest"
      from ne [OF t] SetActive have "cb_ref (snd t) \<noteq> r" by simp
      then have "cb_ok ?w (snd t) = cb_ok w (snd t)"
        by (intro cb_ok_cong) simp_all
      with t_ok [OF sub [OF t]] t_lt [OF sub [OF t]]
      show "cb_ref (snd t) < nextRef w \<and> cb_ok ?w (snd t)" by simp
    qed
    from c dist d6 show ?thesis
      unfolding st consistent_def ids by simp
  next
    case (Splice r)
    from t_ok [OF mem] Splice have r: "r \<in> set (sensors w)" by simp
    let ?w = "w\<lparr>timers := ?rest, sensors := remove1 r (sensors w)\<rparr>"
    have st: "step opts w (Timeout k) = ?w"
      using k Splice r by (simp add: splice_indexOf_present)
    have ids: "registry_ids ?w = map (\<lambda>r. sid (heap w r)) (remove1 r (sensors w))"
      by (simp add: registry_ids_def)
    have d1: "distinct (remove1 r (sensors w))"
      using c by (simp add: consistent_def)
    have d2: "\<forall>r' \<in> set (remove1 r (sensors w)). r' < nextRef w"
      using c by (auto simp: consistent_def dest: notin_set_remove1)
    have d3: "sorted_wrt (<) (map (\<lambda>r. sid (heap w r)) (remove1 r (sensors w)))"
      using c by (intro sorted_wrt_remove1) (simp_all add: consistent_def registry_ids_def)
    have d4: "\<forall>i \<in> set (map (\<lambda>r. sid (heap w r)) (remove1 r (sensors w))). i < nextId w"
      using c by (auto simp: consistent_def registry_ids_def dest: notin_set_remove1)
    have d6: "\<forall>t \<in> set ?rest. cb_ref (snd t) < nextRef w \<and> cb_ok ?w (snd t)"
    proof
      fix t assume t: "t \<in> set ?rest"
      from ne [OF t] Splice have n: "cb_ref (snd t) \<noteq> r" by simp
      have "cb_ok ?w (snd t)"
        using t_ok [OF sub [OF t]] n by (cases "snd t") auto
      with t_lt [OF sub [OF t]]
      show "cb_ref (snd t) < nextRef w \<and> cb_ok ?w (snd t)" by simp
    qed
    from d1 d2 d3 d4 dist d6 show ?thesis
      unfolding st consistent_def ids by simp
  qed
qed

lemma consistent_serve:
  assumes "consistent w"
  shows "consistent (snd (snd (serve opts rt dr req w)))"
proof -
  have "consistent (snd (run_handler rt dr req res w))" for res
  proof -
    consider "snd (run_handler rt dr req res w) = w"
      | "snd (run_handler rt dr req res w)
          = created_world (action_roll dr) (js_get (body req) ''frequency'') w"
      | r cb st where "r \<in> set (sensors w)" "status (heap w r) \<in> {ACTIVE, FAILED}"
          "cb = SetActive r \<and> st = RESTARTING \<or> cb = Splice r \<and> st = TERMINATING"
          "snd (run_handler rt dr req res w)
             = actionAfterDelay (action_roll dr) cb (set_status r st w)"
      using run_handler_world [of rt dr req res w] find_sensor_Some by blast
    then show ?thesis
    proof cases
      case 1
      with assms show ?thesis by simp
    next
      case 2
      with assms show ?thesis by (simp add: consistent_created)
    next
      case 3
      with assms show ?thesis by (simp add: consistent_action)
    qed
  qed
  with assms serve_world [of opts rt dr req w] show ?thesis by auto
qed

lemma consistent_step: "consistent w \<Longrightarrow> consistent (step opts w e)"
proof (cases e)
  case (Timeout k)
  assume "consistent w"
  with Timeout show ?thesis
    using consistent_timeout [of w k opts] by (cases "k < length (timers w)") simp_all
qed (simp_all add: consistent_serve consistent_failures consistent_measurements)

lemma consistent_run: "consistent w \<Longrightarrow> consistent (run opts w es)"
  by (induction es arbitrary: w) (simp_all add: consistent_step)

subsection \<open>Steps add at most one sensor, with the next id\<close>

lemma created_world_shape:
  assumes "consistent w"
  shows "sensors (created_world u f w) = sensors w @ [nextRef w]"
    and "registry_ids (created_world u f w) = registry_ids w @ [nextId w]"
    and "nextId (created_world u f w) = Suc (nextId w)"
    and "nextRef (created_world u f w) = Suc (nextRef w)"
proof -
  have "\<And>r. r \<in> set (sensors w) \<Longrightarrow> r \<noteq> nextRef w"
    using assms by (auto simp: consistent_def)
  then show "registry_ids (created_world u f w) = registry_ids w @ [nextId w]"
    by (simp add: registry_ids_def created_world_def)
qed (simp_all add: created_world_def)

lemma keeps_handler:
  assumes "created_id opts w (Request rt dr req) = None" and "rt \<noteq> CreateSensor"
  shows "keeps opts w (Request rt dr req)"
proof -
  let ?w = "step opts w (Request rt dr req)"
  have no_create: "snd (run_handler rt dr req res w)
      \<noteq> created_world (action_roll dr) (js_get (body req) ''frequency'') w" for res
    using assms(2)
    by (cases rt)
       (auto simp: indexRoute_def getSensorIdsRoute_def getSensorRoute_def debugRoute_def
          changeSensorRoute_def created_world_def Let_def actionAfterDelay_def setTimeout_def
          set_status_def split: option.splits dest: arg_cong [where f = nextId])
  consider "?w = w"
    | r cb st where "?w = actionAfterDelay (action_roll dr) cb (set_status r st w)"
    using serve_world [of opts rt dr req w] run_handler_world [of rt dr req _ w] no_create
    by (fastforce simp: )
  then show ?thesis
  proof cases
    case 1
    with assms(1) show ?thesis by (simp add: keeps_def)
  next
    case 2
    with assms(1) show ?thesis by (simp add: keeps_def registry_ids_def)
  qed
qed

lemma step_shape:
  assumes "consistent w"
  shows "grows opts w e \<or> keeps opts w e"
proof (cases e)
  case (Request rt dr req)
  show ?thesis
  proof (cases "rt = CreateSensor")
    case True
    with serve_create [of opts w dr req] created_world_shape [OF assms] Request
    show ?thesis by (auto simp: grows_def keeps_def)
  next
    case False
    then have "created_id opts w (Request rt dr req) = None" by (cases rt) simp_all
    with False Request show ?thesis by (simp add: keeps_handler)
  qed
next
  case (Timeout k)
  show ?thesis
  proof (cases "k < length (timers w)")
    case False
    with Timeout show ?thesis by (simp add: keeps_def)
  next
    case True
    then show ?thesis
      using Timeout set_splice_subset [of "sensors w"]
      by (cases "snd (timers w ! k)") (auto simp: keeps_def registry_ids_def)
  qed
next
  case (FailureTick rnd)
  then show ?thesis
    by (simp add: keeps_def registry_ids_def triggerIntermittentFailures_def
        failures_from_sensors failures_from_fields)
next
  case (MeasurementTick rnd)
  then show ?thesis
    by (simp add: keeps_def registry_ids_def triggerMeasurements_def
        measurements_from_sensors measurements_from_fields)
qed

lemma step_sid:
  assumes "r < nextRef w"
  shows "sid (heap (step opts w e) r) = sid (heap w r)"
proof (cases e)
  case (Request rt dr req)
  have "sid (heap (snd (run_handler rt dr req res w)) r) = sid (heap w r)" for res
    using run_handler_world [of rt dr req res w] assms
    by (auto simp: created_world_def)
  with serve_world [of opts rt dr req w] Request show ?thesis by auto
next
  case (Timeout k)
  then show ?thesis
    by (cases "snd (timers w ! k)") simp_all
next
  case (FailureTick rnd)
  then show ?thesis by (simp add: triggerIntermittentFailures_def failures_from_fields)
next
  case (MeasurementTick rnd)
  then show ?thesis by (simp add: triggerMeasurements_def measurements_from_fields)
qed

lemma step_nextRef: "consistent w \<Longrightarrow> nextRef w \<le> nextRef (step opts w e)"
  using step_shape [of w opts e] by (auto simp: grows_def keeps_def)

lemma run_sid:
  "consistent w \<Longrightarrow> r < nextRef w \<Longrightarrow> sid (heap (run opts w es) r) = sid (heap w r)"
proof (induction es arbitrary: w)
  case Nil
  then show ?case by simp
next
  case (Cons e es)
  from Cons.prems step_nextRef [of w opts e] have "r < nextRef (step opts w e)" by simp
  with Cons.IH [of "step opts w e"] Cons.prems show ?case
    by (simp add: consistent_step step_sid)
qed

lemma gone_step:
  assumes "consistent w" and "r < nextRef w" and "r \<notin> set (sensors w)"
    and "i < nextId w" and "i \<notin> set (registry_ids w)"
  shows "r < nextRef (step opts w e) \<and> r \<notin> set (sensors (step opts w e))
    \<and> i < nextId (step opts w e) \<and> i \<notin> set (registry_ids (step opts w e))"
  using step_shape [OF assms(1), of opts e] assms(2-5)
  by (auto simp: grows_def keeps_def)

lemma gone_run:
  "consistent w \<Longrightarrow> r < nextRef w \<Longrightarrow> r \<notin> set (sensors w) \<Longrightarrow>
   i < nextId w \<Longrightarrow> i \<notin> set (registry_ids w) \<Longrightarrow>
   r \<notin> set (sensors (run opts w es)) \<and> i \<notin> set (registry_ids (run opts w es))"
proof (induction es arbitrary: w)
  case Nil
  then show ?case by simp
next
  case (Cons e es)
  from gone_step [OF Cons.prems, of opts e] consistent_step [OF Cons.prems(1), of opts e]
  show ?case using Cons.IH [of "step opts w e"] by simp
qed

lemma created_ids_run:
  "consistent w \<Longrightarrow>
   sorted_wrt (<) (created_ids opts w es)
   \<and> (\<forall>i \<in> set (created_ids opts w es). nextId w \<le> i \<and> i < nextId (run opts w es))
   \<and> nextId w \<le> nextId (run opts w es)
   \<and> set (registry_ids (run opts w es)) \<subseteq> set (registry_ids w) \<union> set (created_ids opts w es)"
proof (induction es arbitrary: w)
  case Nil
  then show ?case by simp
next
  case (Cons e es)
  let ?w = "step opts w e"
  have c: "consistent ?w" using Cons.prems by (rule consistent_step)
  note ih = Cons.IH [OF c]
  from step_shape [OF Cons.prems, of opts e] show ?case
  proof
    assume g: "grows opts w e"
    then have "created_ids opts w (e # es) = nextId w # created_ids opts ?w es"
      and "nextId ?w = Suc (nextId w)"
      and "set (registry_ids ?w) = set (registry_ids w) \<union> {nextId w}"
      by (simp_all add: grows_def)
    with ih show ?thesis by (auto simp: Suc_le_eq)
  next
    assume k: "keeps opts w e"
    then have "created_ids opts w (e # es) = created_ids opts ?w es"
      and "nextId ?w = nextId w"
      and "set (registry_ids ?w) \<subseteq> set (registry_ids w)"
      by (simp_all add: keeps_def)
    with ih show ?thesis by auto
  qed
qed

lemma remove1_map_notin:
  assumes "distinct (map f xs)" and "x \<in> set xs"
  shows "f x \<notin> set (map f (remove1 x xs))"
proof -
  from assms(1) have d: "distinct xs" and i: "inj_on f (set xs)"
    by (simp_all add: distinct_map)
  from d have "set (remove1 x xs) = set xs - {x}" by (rule set_remove1_eq)
  with i assms(2) show ?thesis by (auto dest: inj_onD)
qed

lemma pending_splice:
  assumes "consistent w" and "k < length (timers w)" and "snd (timers w ! k) = Splice r"
  shows "r \<in> set (sensors w)" and "status (heap w r) = TERMINATING"
    and "step opts w (Timeout k)
           = w\<lparr>timers := take k (timers w) @ drop (Suc k) (timers w),
               sensors := remove1 r (sensors w)\<rparr>"
proof -
  have "timers w ! k \<in> set (timers w)" using assms(2) by simp
  with assms(1) have "cb_ok w (snd (timers w ! k))" by (simp add: consistent_def)
  with assms(3) show r: "r \<in> set (sensors w)" and "status (heap w r) = TERMINATING" by simp_all
  from assms(2,3) r show "step opts w (Timeout k)
           = w\<lparr>timers := take k (timers w) @ drop (Suc k) (timers w),
               sensors := remove1 r (sensors w)\<rparr>"
    by (simp add: splice_indexOf_present)
qed

subsection \<open>A scheduled removal stays pending until it fires\<close>

lemma pending_removal_iff:
  "pending_removal w r \<longleftrightarrow> (\<exists>t \<in> set (timers w). snd t = Splice r)"
  unfolding pending_removal_def by (metis in_set_conv_nth)

lemma timers_request: "\<exists>ts. timers (step opts w (Request rt dr req)) = timers w @ ts"
proof -
  have "\<exists>ts. timers (snd (run_handler rt dr req res w)) = timers w @ ts" for res
    using run_handler_world [of rt dr req res w]
    by (auto simp: created_world_def)
  with serve_world [of opts rt dr req w] show ?thesis by auto
qed

lemma nth_in_without_nth:
  assumes "k < length xs" and "k \<noteq> k'"
  shows "xs ! k \<in> set (take k' xs @ drop (Suc k') xs)"
proof (cases "k < k'")
  case True
  with assms(1) have "xs ! k \<in> set (take k' xs)"
    by (auto simp: in_set_conv_nth intro!: exI [of _ k])
  then show ?thesis by simp
next
  case False
  with assms(2) have gt: "Suc k' \<le> k" by simp
  then have "drop (Suc k') xs ! (k - Suc k') = xs ! k"
    using assms(1) by simp
  moreover have "k - Suc k' < length (drop (Suc k') xs)"
    using assms(1) gt by simp
  ultimately have "xs ! k \<in> set (drop (Suc k') xs)"
    by (metis nth_mem)
  then show ?thesis by simp
qed

lemma persists_step:
  assumes k: "k < length (timers w)" and p: "snd (timers w ! k) = Splice r"
    and e: "e \<noteq> Timeout k"
  shows "pending_removal (step opts w e) r"
proof (cases e)
  case (Request rt dr req)
  from timers_request [of opts w rt dr req] obtain ts
    where "timers (step opts w (Request rt dr req)) = timers w @ ts" ..
  with k p Request show ?thesis
    unfolding pending_removal_def by (auto simp: nth_append intro!: exI [of _ k])
next
  case (Timeout k')
  with e have ne: "k \<noteq> k'" by simp
  show ?thesis
  proof (cases "k' < length (timers w)")
    case False
    with Timeout k p show ?thesis unfolding pending_removal_def by auto
  next
    case True
    have t: "timers (step opts w (Timeout k'))
        = take k' (timers w) @ drop (Suc k') (timers w)"
      using True by (cases "snd (timers w ! k')") simp_all
    from nth_in_without_nth [OF k ne] p show ?thesis
      unfolding Timeout pending_removal_iff t by blast
  qed
next
  case (FailureTick rnd)
  with k p show ?thesis
    unfolding pending_removal_def
    by (auto simp: triggerIntermittentFailures_def failures_from_timers)
next
  case (MeasurementTick rnd)
  with k p show ?thesis
    unfolding pending_removal_def
    by (auto simp: triggerMeasurements_def measurements_from_timers)
qed

lemma fire_removes:
  assumes c: "consistent w" and k: "k < length (timers w)"
    and p: "snd (timers w ! k) = Splice r"
  shows "removed (step opts w (Timeout k)) r (sid (heap w r))"
proof -
  note q = pending_splice(1) [OF c k p] pending_splice(3) [OF c k p, where opts = opts]
  from c have d: "distinct (sensors w)" and s: "sorted_wrt (<) (registry_ids w)"
    and lt: "\<forall>r \<in> set (sensors w). r < nextRef w"
    and id: "\<forall>i \<in> set (registry_ids w). i < nextId w"
    by (simp_all add: consistent_def)
  from s have "distinct (registry_ids w)" by (simp add: strict_sorted_iff)
  then have "sid (heap w r) \<notin> set (map (\<lambda>r. sid (heap w r)) (remove1 r (sensors w)))"
    unfolding registry_ids_def using q(1) by (rule remove1_map_notin)
  then have g_id: "sid (heap w r) \<notin> set (registry_ids (step opts w (Timeout k)))"
    unfolding q(2) by (simp add: registry_ids_def)
  have g_r: "r \<notin> set (sensors (step opts w (Timeout k)))" unfolding q(2) using d by simp
  have g_lt: "r < nextRef (step opts w (Timeout k))" unfolding q(2) using lt q(1) by simp
  have g_n: "sid (heap w r) < nextId (step opts w (Timeout k))"
    unfolding q(2) using id q(1) by (auto simp: registry_ids_def)
  from g_lt g_r g_n g_id show ?thesis by (simp add: removed_def)
qed

lemma removed_step: "consistent w \<Longrightarrow> removed w r i \<Longrightarrow> removed (step opts w e) r i"
  using gone_step [of w r i opts e] by (simp add: removed_def)

lemma removed_run: "consistent w \<Longrightarrow> removed w r i \<Longrightarrow> removed (run opts w es) r i"
  by (induction es arbitrary: w) (simp_all add: removed_step consistent_step)

lemma tracked_run:
  assumes "consistent w"
    and "pending_removal w r \<and> sid (heap w r) = i \<and> r < nextRef w \<or> removed w r i"
  shows "pending_removal (run opts w es) r \<and> sid (heap (run opts w es) r) = i
           \<and> r < nextRef (run opts w es)
         \<or> removed (run opts w es) r i"
  using assms
proof (induction es arbitrary: w)
  case Nil
  then show ?case by simp
next
  case (Cons e es)
  let ?w = "step opts w e"
  have c: "consistent ?w" using Cons.prems(1) by (rule consistent_step)
  have "pending_removal ?w r \<and> sid (heap ?w r) = i \<and> r < nextRef ?w \<or> removed ?w r i"
  proof (cases "removed w r i")
    case True
    then show ?thesis using Cons.prems(1) by (simp add: removed_step)
  next
    case False
    with Cons.prems(2) have pr: "pending_removal w r" and s: "sid (heap w r) = i"
      and lt: "r < nextRef w" by simp_all
    from pr obtain k where k: "k < length (timers w)" and p: "snd (timers w ! k) = Splice r"
      unfolding pending_removal_def by blast
    show ?thesis
    proof (cases "e = Timeout k")
      case True
      with fire_removes [OF Cons.prems(1) k p, of opts] s show ?thesis by simp
    next
      case False
      from persists_step [OF k p False, of opts] have "pending_removal ?w r" .
      moreover have "sid (heap ?w r) = i" using step_sid [OF lt, of opts e] s by simp
      moreover have "r < nextRef ?w"
        using step_nextRef [OF Cons.prems(1), of opts e] lt by simp
      ultimately show ?thesis by simp
    qed
  qed
  with Cons.IH [OF c] show ?case by simp
qed

lemma get_removed:
  assumes "removed w r i" and "param_id req = js_of_nat i" and "\<not> js_not (param_id req)"
  shows "getSensorRoute req fresh_res w
      = (\<lparr>statusCode = 404, sent = Some (ErrorJson ''not found''), destroyed = False\<rparr>, w)"
    and "param_id req \<notin> set (map js_of_nat (registry_ids w))"
proof -
  from assms(1) have n: "i \<notin> set (registry_ids w)" by (simp add: removed_def)
  then have "find_sensor w (param_id req) = None"
    unfolding assms(2) by (simp add: find_sensor_None)
  with assms(3) show "getSensorRoute req fresh_res w
      = (\<lparr>statusCode = 404, sent = Some (ErrorJson ''not found''), destroyed = False\<rparr>, w)"
    by (simp add: getSensorRoute_def Let_def assms(2) js_of_nat_def Number_isNaN_def
        res_json_def res_status_def fresh_res_def)
  show "param_id req \<notin> set (map js_of_nat (registry_ids w))"
    unfolding assms(2) using n by (auto simp: js_of_nat_def)
qed

section \<open>The claims\<close>

text \<open>
  C1. For every request that reaches the fault-injection gate, the outcome is selected by
  subtracting from a single draw, in fixed order, the hang, bad-gateway, close and
  malformed-body rates: \<open>randomErrorsMiddleware\<close> does what the first category whose
  subtraction makes the running value negative prescribes, and calls \<open>next\<close> with the
  response untouched when none does. In reliable mode the four rates are 0, and for every
  draw (a draw is never negative) the gate passes the request through.
\<close>

theorem gate_selects_first_negative:
  "randomErrorsMiddleware opts roll res = fault_effect (spec_select_fault (fault_rates opts) roll) res
   \<and> (\<not> unreliable opts \<longrightarrow> map fst (fault_rates opts) = [0, 0, 0, 0])
   \<and> (\<not> unreliable opts \<and> 0 \<le> roll \<longrightarrow> randomErrorsMiddleware opts roll res = (res, True))"
  by (simp add: randomErrorsMiddleware_def fault_rates_def Let_def ERROR_HANG_RATE_def
      ERROR_502_RATE_def ERROR_CLOSE_RATE_def ERROR_TEXT_ERROR_def)

text \<open>C1 at a draw of 0.5 in reliable mode and at a draw of 0.12 in unreliable mode.\<close>

theorem gate_selects_first_negative_witness:
  "\<not> unreliable reliable \<and> (0::rat) \<le> 1 / 2
   \<and> randomErrorsMiddleware reliable (1 / 2) fresh_res = (fresh_res, True)
   \<and> map fst (fault_rates reliable) = [0, 0, 0, 0]
   \<and> spec_select_fault (fault_rates flaky) (12 / 100) = Some AbruptClose
   \<and> randomErrorsMiddleware flaky (12 / 100) fresh_res = (connection_destroy fresh_res, False)"
  using gate_selects_first_negative [of reliable "1 / 2" fresh_res]
    gate_selects_first_negative [of flaky "12 / 100" fresh_res]
  by (simp add: reliable_def flaky_def fault_rates_def ERROR_HANG_RATE_def
      ERROR_502_RATE_def ERROR_CLOSE_RATE_def ERROR_TEXT_ERROR_def)

text \<open>
  C2. \<open>POST /sensors\<close> with the body \<open>{}\<close>, in reliable mode: the response is 400 with
  \<open>{error: "invalid frequency"}\<close>, not \<open>{error: "missing frequency"}\<close>, because
  \<open>Number.isNaN(undefined)\<close> is false.
\<close>

theorem create_without_frequency:
  "snd (serve reliable CreateSensor no_draws (plain_request\<lparr>body := []\<rparr>) init)
     = (\<lparr>statusCode = 400, sent = Some (ErrorJson ''invalid frequency''), destroyed = False\<rparr>, init)"
  by (simp add: serve_def gate_reliable no_draws_def plain_request_def createSensorRoute_def
      js_get_def Number_isNaN_def Number_isInteger_def res_json_def res_status_def fresh_res_def)

text \<open>
  C3. For every \<open>POST /sensors/:id/:action\<close> that addresses an existing sensor: the
  response is 200 \<open>{ok: true}\<close> exactly when the sensor's status is \<open>ACTIVE\<close> or \<open>FAILED\<close>
  and the action is \<open>restart\<close> or \<open>terminate\<close>; any other status yields a 400 whose message
  names the status; an unrecognised action name yields a 400 with an error message, and
  the state is unchanged.
\<close>

theorem action_needs_active_or_failed:
  assumes "\<not> js_not (param_id req)" and "find_sensor w (param_id req) = Some r"
  shows "(fst (changeSensorRoute u req fresh_res w)
            = \<lparr>statusCode = 200, sent = Some OkJson, destroyed = False\<rparr>
          \<longleftrightarrow> status (heap w r) \<in> {ACTIVE, FAILED}
              \<and> param_action req \<in> {''restart'', ''terminate''})
     \<and> (status (heap w r) \<notin> {ACTIVE, FAILED} \<longrightarrow>
          changeSensorRoute u req fresh_res w
            = (\<lparr>statusCode = 400,
                sent = Some (ErrorJson (''sensor status is '' @ status_name (status (heap w r)))),
                destroyed = False\<rparr>, w))
     \<and> (param_action req \<notin> {''restart'', ''terminate''} \<longrightarrow>
          statusCode (fst (changeSensorRoute u req fresh_res w)) = 400
          \<and> (\<exists>msg. sent (fst (changeSensorRoute u req fresh_res w)) = Some (ErrorJson msg))
          \<and> snd (changeSensorRoute u req fresh_res w) = w)"
proof -
  from assms(2) have "param_id req \<noteq> NaN"
    by (auto simp: find_sensor_def strict_eq_def find_Some_iff)
  with assms show ?thesis
    by (simp add: changeSensorRoute_def Number_isNaN_def Let_def ACTION_RESTART_def
        ACTION_TERMINATE_def res_json_def res_status_def fresh_res_def)
qed

text \<open>
  C3 on sensor 1, \<open>ACTIVE\<close> after \<open>startup\<close> (\<open>terminate\<close> is accepted, \<open>reboot\<close> is not)
  and \<open>TERMINATING\<close> after \<open>terminating\<close>.
\<close>

theorem action_needs_active_or_failed_witness:
  "\<not> js_not (param_id terminate_request)
   \<and> find_sensor (run reliable init startup) (param_id terminate_request) = Some 0
   \<and> status (heap (run reliable init startup) 0) = ACTIVE
   \<and> fst (changeSensorRoute 0 terminate_request fresh_res (run reliable init startup))
      = \<lparr>statusCode = 200, sent = Some OkJson, destroyed = False\<rparr>
   \<and> fst (changeSensorRoute 0 (terminate_request\<lparr>param_action := ''reboot''\<rparr>) fresh_res
        (run reliable init startup))
      = \<lparr>statusCode = 400, sent = Some (ErrorJson ''invalid action''), destroyed = False\<rparr>
   \<and> find_sensor (run reliable init terminating) (param_id terminate_request) = Some 0
   \<and> status (heap (run reliable init terminating) 0) = TERMINATING
   \<and> fst (changeSensorRoute 0 terminate_request fresh_res (run reliable init terminating))
      = \<lparr>statusCode = 400, sent = Some (ErrorJson ''sensor status is TERMINATING''),
          destroyed = False\<rparr>"
proof -
  let ?w = "run reliable init startup"
  let ?w' = "run reliable init terminating"
  have f: "find_sensor ?w (Finite 1) = Some 0" and s: "status (heap ?w 0) = ACTIVE"
    by (simp_all add: w_startup find_sensor_def strict_eq_def js_of_nat_def)
  have f': "find_sensor ?w' (Finite 1) = Some 0" and s': "status (heap ?w' 0) = TERMINATING"
    by (simp_all add: terminating_def two_sensors_def startup_def) (simp_all add: eval_defs)
  from action_needs_active_or_failed [of terminate_request ?w 0 0]
    action_needs_active_or_failed [of "terminate_request\<lparr>param_action := ''reboot''\<rparr>" ?w 0 0]
    action_needs_active_or_failed [of terminate_request ?w' 0 0]
    f s f' s'
  show ?thesis
    by (simp add: terminate_request_def plain_request_def js_not_def)
       (simp add: changeSensorRoute_def Let_def js_not_def Number_isNaN_def res_json_def
          res_status_def fresh_res_def ACTION_RESTART_def ACTION_TERMINATE_def)
qed

text \<open>
  C4. Let \<open>terminate\<close> be accepted on a sensor in a reachable state: the sensor becomes
  \<open>TERMINATING\<close> and its removal is scheduled after the action delay, which lies between
  2000 and 5000 milliseconds. Whatever happens afterwards, either the removal is still
  pending, with the sensor in the registry and \<open>TERMINATING\<close>, or the sensor is gone; and
  no step other than the firing of that timer takes the removal off the pending timers.
  Once the timer has fired, whatever happens next, the sensor is not in the registry, its
  id is not listed, and \<open>GET /sensors/:id\<close> with the id of the terminate request answers
  404 \<open>{error: "not found"}\<close>.
\<close>

theorem terminate_removes_permanently:
  fixes opts es0 dr req es1
  defines "w0 \<equiv> run opts init es0"
  defines "w1 \<equiv> step opts w0 (Request ChangeSensor dr req)"
  defines "w2 \<equiv> run opts w1 es1"
  assumes terminate: "param_action req = ACTION_TERMINATE"
    and accepted: "sent (fst (snd (serve opts ChangeSensor dr req w0))) = Some OkJson"
    and addressed: "find_sensor w0 (param_id req) = Some r"
  shows "timers w1 = timers w0 @ [(getActionDelay (action_roll dr), Splice r)]
    \<and> (0 \<le> action_roll dr \<and> action_roll dr < 1 \<longrightarrow>
         2000 \<le> getActionDelay (action_roll dr) \<and> getActionDelay (action_roll dr) \<le> 5000)
    \<and> status (heap w1 r) = TERMINATING
    \<and> ((\<exists>k < length (timers w2). snd (timers w2 ! k) = Splice r)
           \<and> r \<in> set (sensors w2) \<and> status (heap w2 r) = TERMINATING
         \<or> r \<notin> set (sensors w2)
           \<and> getSensorRoute req fresh_res w2
               = (\<lparr>statusCode = 404, sent = Some (ErrorJson ''not found''),
                   destroyed = False\<rparr>, w2)
           \<and> param_id req \<notin> set (map js_of_nat (registry_ids w2)))
    \<and> (\<forall>k e. k < length (timers w2) \<and> snd (timers w2 ! k) = Splice r \<and> e \<noteq> Timeout k \<longrightarrow>
          (\<exists>k' < length (timers (step opts w2 e)). snd (timers (step opts w2 e) ! k') = Splice r))
    \<and> (\<forall>k es2. k < length (timers w2) \<and> snd (timers w2 ! k) = Splice r \<longrightarrow>
          r \<in> set (sensors w2)
          \<and> r \<notin> set (sensors (run opts (step opts w2 (Timeout k)) es2))
          \<and> getSensorRoute req fresh_res (run opts (step opts w2 (Timeout k)) es2)
              = (\<lparr>statusCode = 404, sent = Some (ErrorJson ''not found''),
                  destroyed = False\<rparr>, run opts (step opts w2 (Timeout k)) es2)
          \<and> param_id req
              \<notin> set (map js_of_nat (registry_ids (run opts (step opts w2 (Timeout k)) es2))))"
proof -
  let ?i = "sid (heap w0 r)"
  have c0: "consistent w0" unfolding w0_def by (rule consistent_run [OF consistent_init])
  then have c1: "consistent w1" unfolding w1_def by (rule consistent_step)
  then have c2: "consistent w2" unfolding w2_def by (rule consistent_run)
  obtain tr res w' where s: "serve opts ChangeSensor dr req w0 = (tr, res, w')"
    by (cases "serve opts ChangeSensor dr req w0")
  with accepted have "sent res = Some OkJson" by simp
  note acc = serve_change_accepted [OF s this]
  from acc have valid: "\<not> js_not (param_id req)" by simp
  from acc terminate addressed
  have w': "w' = actionAfterDelay (action_roll dr) (Splice r) (set_status r TERMINATING w0)"
    by (auto simp: ACTION_RESTART_def ACTION_TERMINATE_def)
  from s have "w1 = w'" by (simp add: w1_def)
  with w' have sched: "timers w1 = timers w0 @ [(getActionDelay (action_roll dr), Splice r)]"
    and marked: "status (heap w1 r) = TERMINATING"
    and sid1: "sid (heap w1 r) = ?i" and ref1: "nextRef w1 = nextRef w0"
    by simp_all
  have bounds: "0 \<le> action_roll dr \<and> action_roll dr < 1 \<longrightarrow>
      2000 \<le> getActionDelay (action_roll dr) \<and> getActionDelay (action_roll dr) \<le> 5000"
    by (simp add: getActionDelay_def DELAY_ACTION_MIN_def DELAY_ACTION_MAX_def)
  from find_sensor_Some [OF addressed]
  have r0: "r \<in> set (sensors w0)" and id: "param_id req = js_of_nat ?i" by simp_all
  from c0 r0 ref1 have lt1: "r < nextRef w1" by (simp add: consistent_def)
  have "pending_removal w1 r"
    unfolding pending_removal_def sched
    by (rule exI [of _ "length (timers w0)"]) simp
  with sid1 lt1 have "pending_removal w1 r \<and> sid (heap w1 r) = ?i \<and> r < nextRef w1
      \<or> removed w1 r ?i"
    by simp
  from tracked_run [OF c1 this, of opts es1]
  have track: "pending_removal w2 r \<and> sid (heap w2 r) = ?i \<and> r < nextRef w2
      \<or> removed w2 r ?i"
    unfolding w2_def .
  have fired: "removed (run opts (step opts w2 (Timeout k)) es2) r ?i"
    and still: "r \<in> set (sensors w2)" and st2: "status (heap w2 r) = TERMINATING"
    if k: "k < length (timers w2)" and p: "snd (timers w2 ! k) = Splice r" for k es2
  proof -
    from pending_splice(1,2) [OF c2 k p]
    show in2: "r \<in> set (sensors w2)" and "status (heap w2 r) = TERMINATING" by simp_all
    from in2 track have "sid (heap w2 r) = ?i" by (auto simp: removed_def)
    with fire_removes [OF c2 k p, of opts] have "removed (step opts w2 (Timeout k)) r ?i"
      by simp
    with consistent_step [OF c2, of opts "Timeout k"]
    show "removed (run opts (step opts w2 (Timeout k)) es2) r ?i"
      by (rule removed_run)
  qed
  have now: "(\<exists>k < length (timers w2). snd (timers w2 ! k) = Splice r)
           \<and> r \<in> set (sensors w2) \<and> status (heap w2 r) = TERMINATING
         \<or> r \<notin> set (sensors w2)
           \<and> getSensorRoute req fresh_res w2
               = (\<lparr>statusCode = 404, sent = Some (ErrorJson ''not found''),
                   destroyed = False\<rparr>, w2)
           \<and> param_id req \<notin> set (map js_of_nat (registry_ids w2))"
  proof (cases "removed w2 r ?i")
    case True
    with get_removed [OF True id valid] show ?thesis by (simp add: removed_def)
  next
    case False
    with track have "pending_removal w2 r" by simp
    then obtain k where "k < length (timers w2)" "snd (timers w2 ! k) = Splice r"
      unfolding pending_removal_def by blast
    with still st2 show ?thesis by blast
  qed
  have keep: "\<forall>k e. k < length (timers w2) \<and> snd (timers w2 ! k) = Splice r \<and> e \<noteq> Timeout k \<longrightarrow>
      (\<exists>k' < length (timers (step opts w2 e)). snd (timers (step opts w2 e) ! k') = Splice r)"
    using persists_step [of _ w2 r _ opts] unfolding pending_removal_def by blast
  have after: "\<forall>k es2. k < length (timers w2) \<and> snd (timers w2 ! k) = Splice r \<longrightarrow>
          r \<in> set (sensors w2)
          \<and> r \<notin> set (sensors (run opts (step opts w2 (Timeout k)) es2))
          \<and> getSensorRoute req fresh_res (run opts (step opts w2 (Timeout k)) es2)
              = (\<lparr>statusCode = 404, sent = Some (ErrorJson ''not found''),
                  destroyed = False\<rparr>, run opts (step opts w2 (Timeout k)) es2)
          \<and> param_id req
              \<notin> set (map js_of_nat (registry_ids (run opts (step opts w2 (Timeout k)) es2)))"
  proof (intro allI impI, elim conjE)
    fix k es2
    assume k: "k < length (timers w2)" and p: "snd (timers w2 ! k) = Splice r"
    note rm = fired [OF k p, of es2]
    from rm have "r \<notin> set (sensors (run opts (step opts w2 (Timeout k)) es2))"
      unfolding removed_def by blast
    with get_removed [OF rm id valid] still [OF k p]
    show "r \<in> set (sensors w2)
          \<and> r \<notin> set (sensors (run opts (step opts w2 (Timeout k)) es2))
          \<and> getSensorRoute req fresh_res (run opts (step opts w2 (Timeout k)) es2)
              = (\<lparr>statusCode = 404, sent = Some (ErrorJson ''not found''),
                  destroyed = False\<rparr>, run opts (step opts w2 (Timeout k)) es2)
          \<and> param_id req
              \<notin> set (map js_of_nat (registry_ids (run opts (step opts w2 (Timeout k)) es2)))"
      by blast
  qed
  from sched bounds marked now keep after show ?thesis by blast
qed

text \<open>
  C4 on sensor 1: created and activated, then terminated; the removal is still pending
  after a tick of the measurement scheduler and after a \<open>GET\<close>; its timer fires, a second
  sensor is created, and \<open>GET /sensors/1\<close> answers 404.
\<close>

theorem terminate_removes_permanently_witness:
  "param_action terminate_request = ACTION_TERMINATE
   \<and> sent (fst (snd (serve reliable ChangeSensor no_draws terminate_request
         (run reliable init startup)))) = Some OkJson
   \<and> find_sensor (run reliable init startup) (param_id terminate_request) = Some 0
   \<and> 0 \<le> action_roll no_draws \<and> action_roll no_draws < 1
   \<and> timers (run reliable (step reliable (run reliable init startup)
         (Request ChangeSensor no_draws terminate_request)) [MeasurementTick (\<lambda>_. 1 / 2)])
       = [(2000, Splice 0)]
   \<and> Request GetSensor no_draws terminate_request \<noteq> Timeout 0
   \<and> (\<exists>k' < length (timers (step reliable (run reliable (step reliable
           (run reliable init startup) (Request ChangeSensor no_draws terminate_request))
           [MeasurementTick (\<lambda>_. 1 / 2)]) (Request GetSensor no_draws terminate_request))).
         snd (timers (step reliable (run reliable (step reliable
           (run reliable init startup) (Request ChangeSensor no_draws terminate_request))
           [MeasurementTick (\<lambda>_. 1 / 2)]) (Request GetSensor no_draws terminate_request)) ! k')
           = Splice 0)
   \<and> fst (getSensorRoute terminate_request fresh_res
        (run reliable (step reliable (run reliable (step reliable (run reliable init startup)
           (Request ChangeSensor no_draws terminate_request)) [MeasurementTick (\<lambda>_. 1 / 2)])
           (Timeout 0))
           [Request CreateSensor no_draws create_request]))
      = \<lparr>statusCode = 404, sent = Some (ErrorJson ''not found''), destroyed = False\<rparr>"
proof -
  let ?w1 = "step reliable (run reliable init startup)
    (Request ChangeSensor no_draws terminate_request)"
  let ?w2 = "run reliable ?w1 [MeasurementTick (\<lambda>_. 1 / 2)]"
  have w1: "timers ?w1 = [(2000, Splice 0)]"
    by (simp add: w_startup) (simp add: eval_defs)
  have t: "timers ?w2 = [(2000, Splice 0)]"
    using w1 by (simp add: triggerMeasurements_def measurements_from_timers)
  have a: "sent (fst (snd (serve reliable ChangeSensor no_draws terminate_request
         (run reliable init startup)))) = Some OkJson"
    and f: "find_sensor (run reliable init startup) (param_id terminate_request) = Some 0"
    by (simp_all add: w_startup) (simp_all add: eval_defs)
  have n: "param_action terminate_request = ACTION_TERMINATE"
    by (simp add: terminate_request_def plain_request_def ACTION_TERMINATE_def)
  note main = terminate_removes_permanently [where req = terminate_request and opts = reliable
      and dr = no_draws and r = 0 and ?es0.0 = startup
      and ?es1.0 = "[MeasurementTick (\<lambda>_. 1 / 2)]", OF n a f]
  have k: "(0::nat) < length (timers ?w2) \<and> snd (timers ?w2 ! 0) = Splice 0"
    unfolding t by simp
  have e: "Request GetSensor no_draws terminate_request \<noteq> Timeout 0" by simp
  from main k e have keep: "\<exists>k' < length (timers (step reliable ?w2
        (Request GetSensor no_draws terminate_request))).
      snd (timers (step reliable ?w2 (Request GetSensor no_draws terminate_request)) ! k')
        = Splice 0"
    by blast
  from main k have "getSensorRoute terminate_request fresh_res
        (run reliable (step reliable ?w2 (Timeout 0))
           [Request CreateSensor no_draws create_request])
      = (\<lparr>statusCode = 404, sent = Some (ErrorJson ''not found''), destroyed = False\<rparr>,
         run reliable (step reliable ?w2 (Timeout 0))
           [Request CreateSensor no_draws create_request])"
    by blast
  then have g: "fst (getSensorRoute terminate_request fresh_res
        (run reliable (step reliable ?w2 (Timeout 0))
           [Request CreateSensor no_draws create_request]))
      = \<lparr>statusCode = 404, sent = Some (ErrorJson ''not found''), destroyed = False\<rparr>"
    by simp
  have d: "0 \<le> action_roll no_draws \<and> action_roll no_draws < 1"
    by (simp add: no_draws_def)
  from n a f d t e keep g show ?thesis by blast
qed

text \<open>
  C5. On a tick of the measurement scheduler the measurement of a sensor that is not
  \<open>ACTIVE\<close> is unchanged, and no status changes; on a tick of the failure scheduler the
  status of a sensor that is not \<open>ACTIVE\<close> is unchanged, a status that changes was
  \<open>ACTIVE\<close> and becomes \<open>FAILED\<close>, and no measurement changes. An \<open>ACTIVE\<close> sensor at
  index \<open>j\<close> of the registry gets the measurement drawn in iteration \<open>j\<close>, and becomes
  \<open>FAILED\<close> exactly when the draw of iteration \<open>j\<close> is below the failure rate.
\<close>

theorem schedulers_touch_only_active:
  "(status (heap w r) \<noteq> ACTIVE \<longrightarrow>
      measurement (heap (triggerMeasurements rnd w) r) = measurement (heap w r))
   \<and> (status (heap w r) \<noteq> ACTIVE \<longrightarrow>
      status (heap (triggerIntermittentFailures opts rnd' w) r) = status (heap w r))
   \<and> (status (heap (triggerIntermittentFailures opts rnd' w) r) \<noteq> status (heap w r) \<longrightarrow>
      status (heap w r) = ACTIVE \<and> status (heap (triggerIntermittentFailures opts rnd' w) r) = FAILED)
   \<and> status (heap (triggerMeasurements rnd w) r) = status (heap w r)
   \<and> measurement (heap (triggerIntermittentFailures opts rnd' w) r) = measurement (heap w r)
   \<and> (distinct (sensors w) \<and> j < length (sensors w) \<and> status (heap w (sensors w ! j)) = ACTIVE \<longrightarrow>
      measurement (heap (triggerMeasurements rnd w) (sensors w ! j)) = Some (getMeasurement (rnd j))
      \<and> status (heap (triggerIntermittentFailures opts rnd' w) (sensors w ! j))
          = (if rnd' j < FAILURE_RATE opts then FAILED else ACTIVE))"
proof -
  have m1: "status (heap w r) \<noteq> ACTIVE \<longrightarrow>
      measurement (heap (triggerMeasurements rnd w) r) = measurement (heap w r)"
    by (simp add: triggerMeasurements_def measurements_from_inactive)
  have f1: "status (heap (triggerIntermittentFailures opts rnd' w) r) = status (heap w r)
      \<or> status (heap w r) = ACTIVE
        \<and> status (heap (triggerIntermittentFailures opts rnd' w) r) = FAILED"
    unfolding triggerIntermittentFailures_def by (rule failures_from_status)
  have m2: "status (heap (triggerMeasurements rnd w) r) = status (heap w r)"
    by (simp add: triggerMeasurements_def measurements_from_status)
  have f2: "measurement (heap (triggerIntermittentFailures opts rnd' w) r) = measurement (heap w r)"
    by (simp add: triggerIntermittentFailures_def failures_from_measurement)
  have a: "distinct (sensors w) \<and> j < length (sensors w) \<and> status (heap w (sensors w ! j)) = ACTIVE \<longrightarrow>
      measurement (heap (triggerMeasurements rnd w) (sensors w ! j)) = Some (getMeasurement (rnd j))
      \<and> status (heap (triggerIntermittentFailures opts rnd' w) (sensors w ! j))
          = (if rnd' j < FAILURE_RATE opts then FAILED else ACTIVE)"
    by (simp add: triggerMeasurements_def triggerIntermittentFailures_def
        measurements_from_active failures_from_active)
  from m1 f1 m2 f2 a show ?thesis by auto
qed

text \<open>C5 on a registry with sensor 1 \<open>ACTIVE\<close> and sensor 2 \<open>INITIALIZING\<close>.\<close>

theorem schedulers_touch_only_active_witness:
  "status (heap (run reliable init two_sensors) 0) = ACTIVE
   \<and> status (heap (run reliable init two_sensors) 1) = INITIALIZING
   \<and> distinct (sensors (run reliable init two_sensors))
   \<and> sensors (run reliable init two_sensors) = [0, 1]
   \<and> measurement (heap (triggerMeasurements (\<lambda>_. 1 / 2) (run reliable init two_sensors)) 0) = Some 50
   \<and> measurement (heap (triggerMeasurements (\<lambda>_. 1 / 2) (run reliable init two_sensors)) 1) = None
   \<and> status (heap (triggerIntermittentFailures failing (\<lambda>_. 1 / 10) (run reliable init two_sensors)) 0) = FAILED
   \<and> status (heap (triggerIntermittentFailures failing (\<lambda>_. 1 / 10) (run reliable init two_sensors)) 1)
        = INITIALIZING"
proof -
  let ?w = "run reliable init two_sensors"
  have s: "sensors ?w = [0, 1]"
    and h0: "status (heap ?w 0) = ACTIVE" and h1: "status (heap ?w 1) = INITIALIZING"
    and m1: "measurement (heap ?w 1) = None"
    by (simp_all add: two_sensors_def startup_def) (simp_all add: eval_defs)
  from schedulers_touch_only_active [of ?w 1 "\<lambda>_. 1 / 2" failing "\<lambda>_. 1 / 10" 0]
    schedulers_touch_only_active [of ?w 0 "\<lambda>_. 1 / 2" failing "\<lambda>_. 1 / 10" 0]
    s h0 h1 m1
  show ?thesis by (simp add: getMeasurement_def FAILURE_RATE_def failing_def)
qed

text \<open>
  C6. Along every sequence of events from startup (requests of all kinds, timers firing,
  scheduler ticks) the ids of the sensors created are strictly increasing, hence pairwise
  different; each is at least 1 and below \<open>nextId\<close>; and the ids in the registry are
  pairwise different and are among them.
\<close>

theorem ids_strictly_increasing:
  "sorted_wrt (<) (created_ids opts init es)
   \<and> distinct (created_ids opts init es)
   \<and> (\<forall>i \<in> set (created_ids opts init es). 1 \<le> i \<and> i < nextId (run opts init es))
   \<and> distinct (registry_ids (run opts init es))
   \<and> set (registry_ids (run opts init es)) \<subseteq> set (created_ids opts init es)"
proof -
  note r = created_ids_run [OF consistent_init, of opts es]
  from r have s: "sorted_wrt (<) (created_ids opts init es)" by simp
  then have d: "distinct (created_ids opts init es)" by (simp add: strict_sorted_iff)
  from r have b: "\<forall>i \<in> set (created_ids opts init es). 1 \<le> i \<and> i < nextId (run opts init es)"
    by (simp add: init_def)
  have "consistent (run opts init es)" by (rule consistent_run [OF consistent_init])
  then have "sorted_wrt (<) (registry_ids (run opts init es))" by (simp add: consistent_def)
  then have d': "distinct (registry_ids (run opts init es))" by (simp add: strict_sorted_iff)
  from r have "set (registry_ids (run opts init es)) \<subseteq> set (created_ids opts init es)"
    by (simp add: registry_ids_def init_def)
  with s d b d' show ?thesis by simp
qed

text \<open>C6 on \<open>churn\<close>: the sensor created after sensor 1 was removed gets the id 2.\<close>

theorem ids_strictly_increasing_witness:
  "created_ids reliable init churn = [1, 2]
   \<and> registry_ids (run reliable init churn) = [2]
   \<and> nextId (run reliable init churn) = 3
   \<and> sorted_wrt (<) (created_ids reliable init churn)
   \<and> set (registry_ids (run reliable init churn)) \<subseteq> set (created_ids reliable init churn)"
proof -
  have c: "created_ids reliable init churn = [1, 2]"
    by (simp add: churn_def startup_def) (simp add: eval_defs)
  have r: "registry_ids (run reliable init churn) = [2]"
    and n: "nextId (run reliable init churn) = 3"
    by (simp_all add: churn_def startup_def registry_ids_def) (simp_all add: eval_defs)
  from ids_strictly_increasing [of reliable churn] c r n show ?thesis
    by simp
qed

text \<open>
  C7. In unreliable mode, \<open>GET /sensor-ids\<close> with the gate's draw at 0.07 falls in the
  bad-gateway category: the status code of the response object is set to 502, nothing is
  sent and the handler does not run.
\<close>

theorem bad_gateway_sets_status_only:
  "serve flaky SensorIds (no_draws\<lparr>error_roll := 7 / 100\<rparr>) plain_request init
     = ([Waited 0, Gated], \<lparr>statusCode = 502, sent = None, destroyed = False\<rparr>, init)"
  by (simp add: serve_def randomErrorsMiddleware_def flaky_def no_draws_def Let_def
      ERROR_HANG_RATE_def ERROR_502_RATE_def getRequestDelay_def DELAY_REQ_MIN_def
      DELAY_REQ_MAX_def fresh_res_def res_status_def)




text \<open>
  C9, as stated, fails: after \<open>churn\<close> the registry holds sensor 2 only, and applying
  the removal to the sensor object of the removed sensor 1, which is not in it, deletes
  sensor 2.
\<close>

theorem removal_of_absent_sensor_drops_last:
  "(0::nat) \<notin> set (sensors (run reliable init churn))
   \<and> sensors (run reliable init churn) = [1]
   \<and> sensors (run_callback (Splice 0) (run reliable init churn)) = []
   \<and> splice_js [1::nat] (indexOf [1] 0) 1 = []"
proof -
  have "sensors (run reliable init churn) = [1]"
    by (simp add: churn_def startup_def) (simp add: eval_defs)
  then show ?thesis by (simp add: splice_js_def)
qed

text \<open>
  C9, amended. In every reachable state a pending removal finds its sensor in the
  registry, and firing it removes that sensor and nothing else; the removal of a sensor
  that is in the array deletes its first occurrence, and on the empty array it changes
  nothing.
\<close>

theorem completion_finds_its_sensor:
  assumes "k < length (timers (run opts init es))"
    and "snd (timers (run opts init es) ! k) = Splice r"
  shows "r \<in> set (sensors (run opts init es))
    \<and> sensors (step opts (run opts init es) (Timeout k)) = remove1 r (sensors (run opts init es))
    \<and> r \<notin> set (sensors (step opts (run opts init es) (Timeout k)))
    \<and> (\<forall>xs. r \<in> set xs \<longrightarrow> splice_js xs (indexOf xs r) 1 = remove1 r xs)
    \<and> splice_js [] (indexOf [] r) 1 = []"
proof -
  let ?w = "run opts init es"
  have c: "consistent ?w" by (rule consistent_run [OF consistent_init])
  note p = pending_splice(1) [OF c assms] pending_splice(3) [OF c assms, where opts = opts]
  from c have "distinct (sensors ?w)" by (simp add: consistent_def)
  then have "r \<notin> set (remove1 r (sensors ?w))" by simp
  then have gone: "r \<notin> set (sensors (step opts ?w (Timeout k)))"
    and rest: "sensors (step opts ?w (Timeout k)) = remove1 r (sensors ?w)"
    unfolding p(2) by simp_all
  have op: "\<forall>xs. r \<in> set xs \<longrightarrow> splice_js xs (indexOf xs r) 1 = remove1 r xs"
    by (simp add: splice_indexOf_present)
  have "splice_js [] (indexOf [] r) 1 = []"
    by (simp add: splice_js_def)
  with p(1) gone rest op show ?thesis by blast
qed

text \<open>C9, amended, on \<open>terminating\<close>: the second timer removes sensor 1 and leaves sensor 2.\<close>

theorem completion_finds_its_sensor_witness:
  "(1::nat) < length (timers (run reliable init terminating))
   \<and> snd (timers (run reliable init terminating) ! 1) = Splice 0
   \<and> sensors (run reliable init terminating) = [0, 1]
   \<and> sensors (step reliable (run reliable init terminating) (Timeout 1)) = [1]"
proof -
  have t: "timers (run reliable init terminating) = [(2000, SetActive 1), (2000, Splice 0)]"
    and s: "sensors (run reliable init terminating) = [0, 1]"
    by (simp_all add: terminating_def two_sensors_def startup_def) (simp_all add: eval_defs)
  from completion_finds_its_sensor [of 1 reliable terminating 0] t s show ?thesis
    by (simp add: splice_js_def)
qed

text \<open>
  C10. \<open>changeSensorRoute\<close> checks, in this order, the id, the existence of the sensor, its
  status and the action name: an invalid id answers 400 \<open>invalid id\<close> whatever the rest; a
  valid id of no sensor answers 404; a sensor that is neither \<open>ACTIVE\<close> nor \<open>FAILED\<close>
  answers 400 with the message naming its status, whatever the action name, and that is
  not the \<open>invalid action\<close> error; only then an unrecognised action answers 400
  \<open>invalid action\<close>.
\<close>

theorem action_validation_order:
  "(js_not (param_id req) \<longrightarrow>
      changeSensorRoute u req fresh_res w
        = (\<lparr>statusCode = 400, sent = Some (ErrorJson ''invalid id''), destroyed = False\<rparr>, w))
   \<and> (\<not> js_not (param_id req) \<and> find_sensor w (param_id req) = None \<longrightarrow>
      changeSensorRoute u req fresh_res w
        = (\<lparr>statusCode = 404, sent = Some (ErrorJson ''not found''), destroyed = False\<rparr>, w))
   \<and> (\<not> js_not (param_id req) \<and> find_sensor w (param_id req) = Some r
        \<and> status (heap w r) \<notin> {ACTIVE, FAILED} \<longrightarrow>
      changeSensorRoute u req fresh_res w
        = (\<lparr>statusCode = 400,
            sent = Some (ErrorJson (''sensor status is '' @ status_name (status (heap w r)))),
            destroyed = False\<rparr>, w)
      \<and> sent (fst (changeSensorRoute u req fresh_res w)) \<noteq> Some (ErrorJson ''invalid action''))
   \<and> (\<not> js_not (param_id req) \<and> find_sensor w (param_id req) = Some r
        \<and> status (heap w r) \<in> {ACTIVE, FAILED}
        \<and> param_action req \<noteq> ACTION_RESTART \<and> param_action req \<noteq> ACTION_TERMINATE \<longrightarrow>
      changeSensorRoute u req fresh_res w
        = (\<lparr>statusCode = 400, sent = Some (ErrorJson ''invalid action''), destroyed = False\<rparr>, w))"
  by (auto simp: changeSensorRoute_def Let_def js_not_def Number_isNaN_def res_json_def
      res_status_def fresh_res_def)

text \<open>
  C10 with the unrecognised action \<open>reboot\<close> on sensor 2 while it is \<open>INITIALIZING\<close>, and
  one input for each of the other three checks.
\<close>

theorem action_validation_order_witness:
  "\<not> js_not (param_id (terminate_request\<lparr>param_id := Finite 2, param_action := ''reboot''\<rparr>))
   \<and> find_sensor (run reliable init two_sensors) (Finite 2) = Some 1
   \<and> status (heap (run reliable init two_sensors) 1) \<notin> {ACTIVE, FAILED}
   \<and> changeSensorRoute 0 (terminate_request\<lparr>param_id := Finite 2, param_action := ''reboot''\<rparr>)
        fresh_res (run reliable init two_sensors)
      = (\<lparr>statusCode = 400, sent = Some (ErrorJson ''sensor status is INITIALIZING''),
          destroyed = False\<rparr>, run reliable init two_sensors)
   \<and> js_not (param_id (terminate_request\<lparr>param_id := Finite 0\<rparr>))
   \<and> fst (changeSensorRoute 0 (terminate_request\<lparr>param_id := Finite 0\<rparr>) fresh_res init)
      = \<lparr>statusCode = 400, sent = Some (ErrorJson ''invalid id''), destroyed = False\<rparr>
   \<and> find_sensor init (param_id terminate_request) = None
   \<and> fst (changeSensorRoute 0 terminate_request fresh_res init)
      = \<lparr>statusCode = 404, sent = Some (ErrorJson ''not found''), destroyed = False\<rparr>
   \<and> find_sensor (run reliable init startup) (Finite 1) = Some 0
   \<and> status (heap (run reliable init startup) 0) \<in> {ACTIVE, FAILED}
   \<and> fst (changeSensorRoute 0 (terminate_request\<lparr>param_action := ''reboot''\<rparr>) fresh_res
        (run reliable init startup))
      = \<lparr>statusCode = 400, sent = Some (ErrorJson ''invalid action''), destroyed = False\<rparr>"
proof -
  let ?w = "run reliable init two_sensors"
  let ?req = "terminate_request\<lparr>param_id := Finite 2, param_action := ''reboot''\<rparr>"
  have f: "find_sensor ?w (Finite 2) = Some 1"
    and s: "status (heap ?w 1) = INITIALIZING"
    by (simp_all add: two_sensors_def startup_def) (simp_all add: eval_defs)
  have f1: "find_sensor (run reliable init startup) (Finite 1) = Some 0"
    and s1: "status (heap (run reliable init startup) 0) = ACTIVE"
    by (simp_all add: w_startup find_sensor_def strict_eq_def js_of_nat_def)
  have f0: "find_sensor init (Finite 1) = None"
    by (simp add: find_sensor_def init_def)
  from action_validation_order [of ?req 0 ?w 1]
    action_validation_order [of "terminate_request\<lparr>param_id := Finite 0\<rparr>" 0 init 0]
    action_validation_order [of terminate_request 0 init 0]
    action_validation_order [of "terminate_request\<lparr>param_action := ''reboot''\<rparr>" 0
      "run reliable init startup" 0]
    f s f1 s1 f0
  show ?thesis
    by (simp add: terminate_request_def plain_request_def js_not_def ACTION_RESTART_def
        ACTION_TERMINATE_def)
qed

end
